theory Spec2Isabelle
  imports Complex_Main "HOL-Library.Word" "HOL-Library.Log_Nat"
begin

unbundle bit_operations_syntax

section \<open>JavaScript numbers\<close>

text \<open>
  The codec of \<^verbatim>\<open>msgpack.js\<close> computes on JavaScript Numbers, that is on IEEE-754
  binary64 values. A Number is modelled by its exact mathematical value (a rational; every
  finite binary64 value is one), by negative zero, or by one of the three special values;
  \<open>Fin 0\<close> is the positive zero. Wherever the source performs an operation whose exact
  result need not be a binary64 value, the model rounds it with \<open>fl\<close> (round to nearest, ties
  to even, 53 significant bits); a negative result that rounds to zero is the negative zero.
\<close>

type_synonym byte = "8 word"
type_synonym jstring = "16 word list"

datatype jsnum = Fin rat | NaN | PosInf | NegInf | NegZero

definition pow2 :: "int \<Rightarrow> rat" where
  "pow2 e = (if 0 \<le> e then 2 ^ nat e else 1 / 2 ^ nat (- e))"

definition ilog2 :: "rat \<Rightarrow> int" where
  \<comment> \<open>the integer part of the binary logarithm of a positive rational\<close>
  "ilog2 a =
     (let d = bitlen (fst (quotient_of a)) - bitlen (snd (quotient_of a))
      in if pow2 d \<le> a then d else d - 1)"

definition round_half_even :: "rat \<Rightarrow> int" where
  "round_half_even m =
     (let f = \<lfloor>m\<rfloor>; r = m - of_int f
      in if r < 1 / 2 then f else if 1 / 2 < r then f + 1 else if even f then f else f + 1)"

definition ulp_exp :: "rat \<Rightarrow> int" where
  \<comment> \<open>the exponent of the last place of the binary64 value nearest to \<open>a > 0\<close>\<close>
  "ulp_exp a = max (ilog2 a) (- 1022) - 52"

definition fl :: "rat \<Rightarrow> jsnum" where
  "fl q =
     (if q = 0 then Fin 0
      else let a = \<bar>q\<bar>;
               r = of_int (round_half_even (a / pow2 (ulp_exp a))) * pow2 (ulp_exp a)
           in if pow2 1024 \<le> r then (if 0 < q then PosInf else NegInf)
              else if r = 0 \<and> q < 0 then NegZero
              else Fin (if 0 < q then r else - r))"

fun js_lt :: "jsnum \<Rightarrow> jsnum \<Rightarrow> bool" where
  "js_lt (Fin a) (Fin b) = (a < b)"
| "js_lt (Fin a) PosInf = True"
| "js_lt NegInf (Fin b) = True"
| "js_lt NegInf PosInf = True"
| "js_lt (Fin a) NegZero = (a < 0)"
| "js_lt NegZero (Fin b) = (0 < b)"
| "js_lt NegZero PosInf = True"
| "js_lt NegInf NegZero = True"
| "js_lt _ _ = False"

fun js_eq :: "jsnum \<Rightarrow> jsnum \<Rightarrow> bool" where
  \<comment> \<open>\<^verbatim>\<open>===\<close> on Numbers: the two zeros are equal, \<open>NaN\<close> is equal to nothing\<close>
  "js_eq NaN _ = False"
| "js_eq _ NaN = False"
| "js_eq NegZero (Fin b) = (b = 0)"
| "js_eq (Fin a) NegZero = (a = 0)"
| "js_eq a b = (a = b)"

definition js_le :: "jsnum \<Rightarrow> jsnum \<Rightarrow> bool" where
  "js_le a b = (js_lt a b \<or> js_eq a b)"

definition js_gt :: "jsnum \<Rightarrow> jsnum \<Rightarrow> bool" where
  "js_gt a b = js_lt b a"

definition js_ge :: "jsnum \<Rightarrow> jsnum \<Rightarrow> bool" where
  "js_ge a b = js_le b a"

definition js_trunc :: "rat \<Rightarrow> int" where
  \<comment> \<open>truncation towards zero, the integer conversion of ToInt32, ToUint32 and ToUint8\<close>
  "js_trunc q = (if 0 \<le> q then \<lfloor>q\<rfloor> else \<lceil>q\<rceil>)"

fun ToUint32 :: "jsnum \<Rightarrow> int" where
  "ToUint32 (Fin q) = js_trunc q mod 2 ^ 32"
| "ToUint32 _ = 0"

definition ToInt32 :: "jsnum \<Rightarrow> int" where
  "ToInt32 x = (let u = ToUint32 x in if 2 ^ 31 \<le> u then u - 2 ^ 32 else u)"

definition num :: "int \<Rightarrow> jsnum" where
  "num i = Fin (of_int i)"

definition ushr :: "jsnum \<Rightarrow> nat \<Rightarrow> jsnum" where
  \<comment> \<open>\<^verbatim>\<open>x >>> k\<close>\<close>
  "ushr x k = num (ToUint32 x div 2 ^ k)"

definition shl :: "jsnum \<Rightarrow> nat \<Rightarrow> jsnum" where
  \<comment> \<open>\<^verbatim>\<open>x << k\<close>, a signed 32-bit result\<close>
  "shl x k = num (ToInt32 (num (ToInt32 x * 2 ^ k)))"

definition bit_or :: "jsnum \<Rightarrow> jsnum \<Rightarrow> jsnum" where
  \<comment> \<open>\<^verbatim>\<open>a | b\<close>\<close>
  "bit_or a b = num (ToInt32 a OR ToInt32 b)"

definition bit_and :: "jsnum \<Rightarrow> jsnum \<Rightarrow> jsnum" where
  \<comment> \<open>\<^verbatim>\<open>a & b\<close>\<close>
  "bit_and a b = num (ToInt32 a AND ToInt32 b)"

definition bit_not :: "jsnum \<Rightarrow> jsnum" where
  \<comment> \<open>\<^verbatim>\<open>~x\<close>\<close>
  "bit_not x = num (- ToInt32 x - 1)"

definition u8 :: "jsnum \<Rightarrow> byte" where
  \<comment> \<open>storing a Number into a \<^verbatim>\<open>Uint8Array\<close>: ToUint8\<close>
  "u8 x = word_of_int (ToUint32 x)"

fun isFinite :: "jsnum \<Rightarrow> bool" where
  "isFinite (Fin q) = True"
| "isFinite NegZero = True"
| "isFinite _ = False"

fun Math_floor :: "jsnum \<Rightarrow> jsnum" where
  "Math_floor (Fin q) = Fin (of_int \<lfloor>q\<rfloor>)"
| "Math_floor x = x"

fun Math_abs :: "jsnum \<Rightarrow> jsnum" where
  "Math_abs (Fin q) = Fin \<bar>q\<bar>"
| "Math_abs NegInf = PosInf"
| "Math_abs NegZero = Fin 0"
| "Math_abs x = x"

fun num_div :: "jsnum \<Rightarrow> rat \<Rightarrow> jsnum" where
  \<comment> \<open>\<^verbatim>\<open>x / c\<close> for a positive finite constant \<open>c\<close>\<close>
  "num_div (Fin q) c = fl (q / c)"
| "num_div x c = x"

fun num_mul :: "jsnum \<Rightarrow> rat \<Rightarrow> jsnum" where
  \<comment> \<open>\<^verbatim>\<open>x * c\<close> for a positive finite constant \<open>c\<close>\<close>
  "num_mul (Fin q) c = fl (q * c)"
| "num_mul x c = x"

fun num_rem :: "jsnum \<Rightarrow> rat \<Rightarrow> jsnum" where
  \<comment> \<open>\<^verbatim>\<open>x % c\<close> for a positive finite constant \<open>c\<close>: the sign of the dividend, always exact\<close>
  "num_rem (Fin q) c =
     (let r = q - c * of_int (js_trunc (q / c)) in if r = 0 \<and> q < 0 then NegZero else Fin r)"
| "num_rem NegZero c = NegZero"
| "num_rem x c = NaN"

fun num_add :: "jsnum \<Rightarrow> jsnum \<Rightarrow> jsnum" where
  "num_add (Fin a) (Fin b) = fl (a + b)"
| "num_add NegZero NegZero = NegZero"
| "num_add NegZero b = b"
| "num_add a NegZero = a"
| "num_add NaN _ = NaN"
| "num_add _ NaN = NaN"
| "num_add PosInf NegInf = NaN"
| "num_add NegInf PosInf = NaN"
| "num_add PosInf _ = PosInf"
| "num_add NegInf _ = NegInf"
| "num_add (Fin a) b = b"

definition pow32 :: rat where
  "pow32 = 0x100000000"

text \<open>
  A numeric literal denotes the binary64 value nearest to its mathematical value. All
  literals of the source but two are binary64 values themselves; \<^verbatim>\<open>0xffffffffffffffff\<close>
  and \<^verbatim>\<open>0x7fffffffffffffff\<close> are not, and are written \<open>lit \<dots>\<close> below.
\<close>

definition lit :: "rat \<Rightarrow> jsnum" where
  "lit q = fl q"

subsection \<open>The binary64 and binary32 interchange formats\<close>

definition be_bytes :: "nat \<Rightarrow> int \<Rightarrow> byte list" where
  \<comment> \<open>the \<open>n\<close> low-order bytes of an integer, most significant first\<close>
  "be_bytes n v = map (\<lambda>i. word_of_int (v div 2 ^ (8 * (n - 1 - i)))) [0..<n]"

definition be_value :: "byte list \<Rightarrow> int" where
  "be_value bs = foldl (\<lambda>v b. v * 256 + uint b) 0 bs"

fun float64_bits :: "jsnum \<Rightarrow> int" where
  "float64_bits (Fin q) =
     (if q = 0 then 0
      else let a = \<bar>q\<bar>; k = round_half_even (a / pow2 (ulp_exp a))
           in (if q < 0 then 2 ^ 63 else 0)
              + min ((ulp_exp a + 1074) * 2 ^ 52 + k) 0x7ff0000000000000)"
| "float64_bits NegZero = 0x8000000000000000"
| "float64_bits NaN = 0x7ff8000000000000"
| "float64_bits PosInf = 0x7ff0000000000000"
| "float64_bits NegInf = 0xfff0000000000000"

definition setFloat64 :: "jsnum \<Rightarrow> byte list" where
  \<comment> \<open>\<^verbatim>\<open>floatView.setFloat64(0, data)\<close>, then the eight bytes of the buffer\<close>
  "setFloat64 x = be_bytes 8 (float64_bits x)"

definition ieee_value :: "nat \<Rightarrow> nat \<Rightarrow> int \<Rightarrow> jsnum" where
  \<comment> \<open>the value of a bit pattern with \<open>w\<close> exponent bits and \<open>t\<close> fraction bits\<close>
  "ieee_value w t bits =
     (let m = bits mod 2 ^ t; e = (bits div 2 ^ t) mod 2 ^ w; neg = (bits div 2 ^ (t + w)) mod 2 = 1;
          bias = 2 ^ (w - 1) - 1
      in if e = 2 ^ w - 1 then (if m \<noteq> 0 then NaN else if neg then NegInf else PosInf)
         else let a = (if e = 0 then of_int m * pow2 (1 - bias - int t)
                       else of_int (2 ^ t + m) * pow2 (e - bias - int t))
              in if neg \<and> a = 0 then NegZero else Fin (if neg then - a else a))"

definition getFloat64 :: "byte list \<Rightarrow> jsnum" where
  "getFloat64 bs = ieee_value 11 52 (be_value bs)"

definition getFloat32 :: "byte list \<Rightarrow> jsnum" where
  "getFloat32 bs = ieee_value 8 23 (be_value bs)"

section \<open>Values, options and results\<close>

text \<open>
  The values \<^verbatim>\<open>serialize\<close> dispatches on, by \<^verbatim>\<open>typeof\<close> and
  \<^verbatim>\<open>instanceof\<close>. A string is its sequence of UTF-16 code units. A \<open>Date\<close> is its
  time value in milliseconds (\<open>None\<close> for an invalid date). \<open>Bytes\<close> is a
  \<^verbatim>\<open>Uint8Array\<close> or \<^verbatim>\<open>Uint8ClampedArray\<close>, \<open>TypedArr\<close> any other typed array
  (its elements are Numbers). \<open>Obj\<close> is any other object, given by its enumerable
  properties in the order \<^verbatim>\<open>for (key in data)\<close> visits them. Functions, symbols and
  bigints are the values whose \<^verbatim>\<open>typeof\<close> is none of the five handled ones.
  \<open>ObjP p es\<close> is an object created by \<^verbatim>\<open>{}\<close> whose prototype has since been replaced by
  \<open>p\<close> (\<^verbatim>\<open>null\<close> or an object), with its own properties \<open>es\<close>: only \<^verbatim>\<open>deserialize\<close>
  makes one, from a map with the key \<^verbatim>\<open>__proto__\<close> (see \<open>obj_set\<close>).
\<close>

datatype jsval =
    Undefined
  | Null
  | Bool bool
  | Num jsnum
  | Str jstring
  | Date "int option"
  | Arr "jsval list"
  | Bytes "byte list"
  | TypedArr "jsnum list"
  | Obj "(jstring \<times> jsval) list"
  | Function
  | Symbol
  | BigInt int
  | ObjP jsval "(jstring \<times> jsval) list"

text \<open>
  The errors, named as the specification names them. The source throws a plain
  \<^verbatim>\<open>Error\<close> with a message in every case but two: \<open>RangeError\<close>, which the
  \<^verbatim>\<open>DataView\<close> constructor throws, and \<open>TypeError\<close>, which the language throws when a
  method of \<^verbatim>\<open>undefined\<close> is called and when an assignment fails (the source is a module,
  hence strict code).
\<close>

datatype error =
    InvalidArgument
  | UnsupportedType
  | InvalidByteCode
  | InvalidByteValue
  | EncodingError
  | DecodingError
  | InvalidExtensionLength
  | RangeError
  | TypeError

text \<open>
  A call returns a value (\<open>Ok\<close>) or throws (\<open>Throw\<close>). \<open>OutOfFuel\<close> is the model's own:
  the recursion bound of a function below was reached. \<open>NotModelled\<close> is the model's own
  too: the source went on somewhere the model does not follow (see \<open>append\<close> on \<open>ObjP\<close>
  and \<open>inherited_from\<close>).
\<close>

datatype 'a result = Ok 'a | Throw error | OutOfFuel | NotModelled

fun rbind :: "'a result \<Rightarrow> ('a \<Rightarrow> 'b result) \<Rightarrow> 'b result" where
  "rbind (Ok x) f = f x"
| "rbind (Throw e) f = Throw e"
| "rbind OutOfFuel f = OutOfFuel"
| "rbind NotModelled f = NotModelled"

fun prepend :: "'a list \<Rightarrow> 'a list result \<Rightarrow> 'a list result" where
  "prepend bs (Ok r) = Ok (bs @ r)"
| "prepend bs (Throw e) = Throw e"
| "prepend bs OutOfFuel = OutOfFuel"
| "prepend bs NotModelled = NotModelled"

text \<open>
  \<^verbatim>\<open>typeHint\<close> is only ever compared with the strings \<^verbatim>\<open>"int"\<close>, \<^verbatim>\<open>"double"\<close> and
  \<^verbatim>\<open>"float"\<close>; \<open>NoHint\<close> stands for every other value, the initial \<^verbatim>\<open>""\<close> and the
  \<^verbatim>\<open>undefined\<close> of the nested calls included.
\<close>

datatype type_hint = NoHint | IntHint | DoubleHint | FloatHint

text \<open>
  \<^verbatim>\<open>invalidTypeReplacement\<close> is absent, a value that is not a function, or a function
  (taken to be pure and total).
\<close>

datatype replacement = NoReplacement | ReplValue jsval | ReplFunction "jsval \<Rightarrow> jsval"

record options =
  multiple :: bool
  typeHint :: type_hint
  invalidTypeReplacement :: replacement

definition no_options :: options where
  "no_options = \<lparr>multiple = False, typeHint = NoHint, invalidTypeReplacement = NoReplacement\<rparr>"

fun ToBoolean :: "jsval \<Rightarrow> bool" where
  "ToBoolean Undefined = False"
| "ToBoolean Null = False"
| "ToBoolean (Bool b) = b"
| "ToBoolean (Num x) = (x \<noteq> NaN \<and> x \<noteq> Fin 0 \<and> x \<noteq> NegZero)"
| "ToBoolean (Str s) = (s \<noteq> [])"
| "ToBoolean (BigInt i) = (i \<noteq> 0)"
| "ToBoolean _ = True"

fun truthy :: "replacement \<Rightarrow> bool" where
  \<comment> \<open>the test \<^verbatim>\<open>options && options.invalidTypeReplacement\<close>\<close>
  "truthy NoReplacement = False"
| "truthy (ReplValue v) = ToBoolean v"
| "truthy (ReplFunction f) = True"

fun replace :: "replacement \<Rightarrow> jsval \<Rightarrow> jsval" where
  "replace (ReplFunction f) data = f data"
| "replace (ReplValue v) data = v"
| "replace NoReplacement data = Undefined"

section \<open>The text codec: \<^verbatim>\<open>encodeUtf8\<close>\<close>

text \<open>
  The loop over the code units is a recursion over the string. The first loop of the source
  (the \<^verbatim>\<open>ascii\<close> flag) only sizes the byte array; the bytes returned are the \<open>i\<close> bytes
  written, in both cases.
\<close>

fun encodeUtf8 :: "jstring \<Rightarrow> byte list result" where
  "encodeUtf8 [] = Ok []"
| "encodeUtf8 (u # us) =
     (let c = unat u in
      if c < 128 then prepend [of_nat c] (encodeUtf8 us)
      else if c < 2048 then
        prepend [of_nat (drop_bit 6 c OR 192), of_nat ((c AND 63) OR 128)] (encodeUtf8 us)
      else if c > 0xd7ff \<and> c < 0xdc00 then
        (case us of
           [] \<Rightarrow> Throw EncodingError
         | u2 # us' \<Rightarrow>
             (let c2 = unat u2 in
              if c2 < 0xdc00 \<or> c2 > 0xdfff then Throw EncodingError
              else let c' = 0x10000 + push_bit 10 (c AND 0x03ff) + (c2 AND 0x03ff)
                   in prepend [of_nat (drop_bit 18 c' OR 240),
                               of_nat ((drop_bit 12 c' AND 63) OR 128),
                               of_nat ((drop_bit 6 c' AND 63) OR 128),
                               of_nat ((c' AND 63) OR 128)] (encodeUtf8 us')))
      else prepend [of_nat (drop_bit 12 c OR 224),
                    of_nat ((drop_bit 6 c AND 63) OR 128),
                    of_nat ((c AND 63) OR 128)] (encodeUtf8 us))"

section \<open>The encoder: \<^verbatim>\<open>serialize\<close>\<close>

text \<open>
  The growable buffer is append-only and is returned as \<^verbatim>\<open>array.subarray(0, length)\<close>, so
  every \<^verbatim>\<open>append\<dots>\<close> function is modelled by the bytes it appends, and a sequence of calls
  by the concatenation. An exception discards the buffer.
\<close>

definition shr_byte :: "nat \<Rightarrow> nat \<Rightarrow> byte" where
  \<comment> \<open>the byte stored for \<^verbatim>\<open>length >>> k\<close>\<close>
  "shr_byte n k = u8 (ushr (num (int n)) k)"

definition appendNull :: "byte list" where
  "appendNull = [0xc0]"

definition appendBoolean :: "bool \<Rightarrow> byte list" where
  "appendBoolean data = [if data then 0xc3 else 0xc2]"

definition appendInt64 :: "jsnum \<Rightarrow> byte list" where
  "appendInt64 v =
     (let hi = (if js_ge v (Fin 0) then num_div v pow32
                else bit_not (num_div (Math_abs (num_add v (Fin 1))) pow32));
          lo = (if js_ge v (Fin 0) then num_rem v pow32
                else bit_not (num_rem (Math_abs (num_add v (Fin 1))) pow32))
      in [u8 (ushr hi 24), u8 (ushr hi 16), u8 (ushr hi 8), u8 hi,
          u8 (ushr lo 24), u8 (ushr lo 16), u8 (ushr lo 8), u8 lo])"

definition isInteger :: "jsnum \<Rightarrow> type_hint \<Rightarrow> bool" where
  "isInteger data th =
     (th = IntHint \<or>
      (isFinite data \<and> js_eq (Math_floor data) data \<and> th \<noteq> DoubleHint \<and> th \<noteq> FloatHint))"

definition appendNumber :: "jsnum \<Rightarrow> type_hint \<Rightarrow> byte list" where
  "appendNumber data th =
     (if isInteger data th then
        if js_ge data (Fin 0) \<and> js_le data (Fin 0x7f) then [u8 data]
        else if js_lt data (Fin 0) \<and> js_ge data (Fin (- 0x20)) then [u8 data]
        else if js_gt data (Fin 0) \<and> js_le data (Fin 0xff) then [0xcc, u8 data]
        else if js_ge data (Fin (- 0x80)) \<and> js_le data (Fin 0x7f) then [0xd0, u8 data]
        else if js_gt data (Fin 0) \<and> js_le data (Fin 0xffff) then
          [0xcd, u8 (ushr data 8), u8 data]
        else if js_ge data (Fin (- 0x8000)) \<and> js_le data (Fin 0x7fff) then
          [0xd1, u8 (ushr data 8), u8 data]
        else if js_gt data (Fin 0) \<and> js_le data (Fin 0xffffffff) then
          [0xce, u8 (ushr data 24), u8 (ushr data 16), u8 (ushr data 8), u8 data]
        else if js_ge data (Fin (- 0x80000000)) \<and> js_le data (Fin 0x7fffffff) then
          [0xd2, u8 (ushr data 24), u8 (ushr data 16), u8 (ushr data 8), u8 data]
        else if js_gt data (Fin 0) \<and> js_le data (lit 0xffffffffffffffff) then
          (let hi = num_div data pow32; lo = num_rem data pow32
           in [0xd3, u8 (ushr hi 24), u8 (ushr hi 16), u8 (ushr hi 8), u8 hi,
               u8 (ushr lo 24), u8 (ushr lo 16), u8 (ushr lo 8), u8 lo])
        else if js_ge data (Fin (- 0x8000000000000000)) \<and> js_le data (lit 0x7fffffffffffffff) then
          0xd3 # appendInt64 data
        else if js_lt data (Fin 0) then [0xd3, 0x80, 0, 0, 0, 0, 0, 0, 0]
        else [0xcf, 0xff, 0xff, 0xff, 0xff, 0xff, 0xff, 0xff, 0xff]
      else 0xcb # setFloat64 data)"

definition strHeader :: "nat \<Rightarrow> byte list" where
  "strHeader n =
     (if n \<le> 0x1f then [of_nat (0xa0 + n)]
      else if n \<le> 0xff then [0xd9, of_nat n]
      else if n \<le> 0xffff then [0xda, shr_byte n 8, of_nat n]
      else [0xdb, shr_byte n 24, shr_byte n 16, shr_byte n 8, of_nat n])"

definition appendString :: "jstring \<Rightarrow> byte list result" where
  "appendString data = rbind (encodeUtf8 data) (\<lambda>bytes. Ok (strHeader (length bytes) @ bytes))"

definition arrayHeader :: "nat \<Rightarrow> byte list" where
  "arrayHeader n =
     (if n \<le> 0xf then [of_nat (0x90 + n)]
      else if n \<le> 0xffff then [0xdc, shr_byte n 8, of_nat n]
      else [0xdd, shr_byte n 24, shr_byte n 16, shr_byte n 8, of_nat n])"

definition appendBinArray :: "byte list \<Rightarrow> byte list" where
  "appendBinArray data =
     (let n = length data in
      (if n \<le> 0xf then [0xc4, of_nat n]
       else if n \<le> 0xffff then [0xc5, shr_byte n 8, of_nat n]
       else [0xc6, shr_byte n 24, shr_byte n 16, shr_byte n 8, of_nat n]) @ data)"

definition mapHeader :: "nat \<Rightarrow> byte list" where
  "mapHeader n =
     (if n \<le> 0xf then [of_nat (0x80 + n)]
      else if n \<le> 0xffff then [0xde, shr_byte n 8, of_nat n]
      else [0xdf, shr_byte n 24, shr_byte n 16, shr_byte n 8, of_nat n])"

text \<open>
  \<^verbatim>\<open>getTime()\<close> is the time value; \<^verbatim>\<open>getMilliseconds()\<close> is the millisecond part of
  the local time, which is the time value modulo 1000 since time zone offsets are whole
  seconds. Both are \<open>NaN\<close> for an invalid date.
\<close>

definition getTime :: "int option \<Rightarrow> jsnum" where
  "getTime t = (case t of Some ms \<Rightarrow> num ms | None \<Rightarrow> NaN)"

definition getMilliseconds :: "int option \<Rightarrow> jsnum" where
  "getMilliseconds t = (case t of Some ms \<Rightarrow> num (ms mod 1000) | None \<Rightarrow> NaN)"

definition appendDate :: "int option \<Rightarrow> byte list" where
  "appendDate data =
     (let sec = num_div (getTime data) 1000 in
      if js_eq (getMilliseconds data) (Fin 0) \<and> js_ge sec (Fin 0) \<and> js_lt sec (Fin 0x100000000)
      then [0xd6, 0xff, u8 (ushr sec 24), u8 (ushr sec 16), u8 (ushr sec 8), u8 sec]
      else if js_ge sec (Fin 0) \<and> js_lt sec (Fin 0x400000000) then
        (let ns = num_mul (getMilliseconds data) 1000000
         in [0xd7, 0xff, u8 (ushr ns 22), u8 (ushr ns 14), u8 (ushr ns 6),
             u8 (bit_or (ushr (shl ns 2) 0) (num_div sec pow32)),
             u8 (ushr sec 24), u8 (ushr sec 16), u8 (ushr sec 8), u8 sec])
      else
        (let ns = num_mul (getMilliseconds data) 1000000
         in [0xc7, 12, 0xff, u8 (ushr ns 24), u8 (ushr ns 16), u8 (ushr ns 8), u8 ns]
            @ appendInt64 sec))"

text \<open>
  \<open>append\<close> is the dispatch of the source. Its second argument bounds the number of
  replacements followed along one path: a replacement value may itself contain a value of
  an unsupported type inside an array or object, where \<^verbatim>\<open>isReplacement\<close> is
  \<^verbatim>\<open>undefined\<close> again, and the source then recurses without end. The elements of an
  array and the values of an object are appended with \<^verbatim>\<open>append(x)\<close>: no replacement
  flag and no type hint. \<^verbatim>\<open>appendArray\<close> and \<^verbatim>\<open>appendObject\<close> are the header followed by
  the loop (\<open>appendArray_loop\<close>, \<open>appendObject_loop\<close>). The elements of a typed array are
  Numbers and the keys of an object are strings, so \<^verbatim>\<open>append\<close> reaches \<^verbatim>\<open>appendNumber\<close>
  and \<^verbatim>\<open>appendString\<close> on them. The model does not follow \<^verbatim>\<open>append\<close> on an object whose
  prototype has been replaced (\<open>ObjP\<close>): its \<^verbatim>\<open>instanceof\<close> tests and its
  \<^verbatim>\<open>for (key in data)\<close> loop go through the whole prototype chain.
\<close>

fun append :: "options \<Rightarrow> nat \<Rightarrow> jsval \<Rightarrow> bool \<Rightarrow> type_hint \<Rightarrow> byte list result"
  and appendArray_loop :: "options \<Rightarrow> nat \<Rightarrow> jsval list \<Rightarrow> byte list result"
  and appendObject_loop :: "options \<Rightarrow> nat \<Rightarrow> (jstring \<times> jsval) list \<Rightarrow> byte list result"
where
  "append opts n Undefined isReplacement th = Ok appendNull"
| "append opts n (Bool b) isReplacement th = Ok (appendBoolean b)"
| "append opts n (Num x) isReplacement th = Ok (appendNumber x th)"
| "append opts n (Str s) isReplacement th = appendString s"
| "append opts n Null isReplacement th = Ok appendNull"
| "append opts n (Date t) isReplacement th = Ok (appendDate t)"
| "append opts n (Arr xs) isReplacement th =
     prepend (arrayHeader (length xs)) (appendArray_loop opts n xs)"
| "append opts n (Bytes bs) isReplacement th = Ok (appendBinArray bs)"
| "append opts n (TypedArr xs) isReplacement th =
     Ok (arrayHeader (length xs) @ concat (map (\<lambda>x. appendNumber x NoHint) xs))"
| "append opts n (Obj es) isReplacement th =
     prepend (mapHeader (length (filter (\<lambda>e. snd e \<noteq> Undefined) es)))
       (appendObject_loop opts n es)"
| "append opts n (ObjP p es) isReplacement th = NotModelled"
| "append opts n unsupported isReplacement th =
     (if \<not> isReplacement \<and> truthy (invalidTypeReplacement opts) then
        (case n of
           0 \<Rightarrow> OutOfFuel
         | Suc m \<Rightarrow> append opts m (replace (invalidTypeReplacement opts) unsupported) True th)
      else Throw UnsupportedType)"
| "appendArray_loop opts n [] = Ok []"
| "appendArray_loop opts n (x # xs) =
     rbind (append opts n x False NoHint) (\<lambda>a. prepend a (appendArray_loop opts n xs))"
| "appendObject_loop opts n [] = Ok []"
| "appendObject_loop opts n ((key, v) # es) =
     (if v \<noteq> Undefined then
        rbind (appendString key) (\<lambda>k.
        rbind (append opts n v False NoHint) (\<lambda>a. prepend (k @ a) (appendObject_loop opts n es)))
      else appendObject_loop opts n es)"

definition appendArray :: "options \<Rightarrow> nat \<Rightarrow> jsval list \<Rightarrow> byte list result" where
  "appendArray opts n data = append opts n (Arr data) False NoHint"

definition appendObject :: "options \<Rightarrow> nat \<Rightarrow> (jstring \<times> jsval) list \<Rightarrow> byte list result" where
  "appendObject opts n data = append opts n (Obj data) False NoHint"

fun appendMultiple :: "options \<Rightarrow> nat \<Rightarrow> jsval list \<Rightarrow> type_hint \<Rightarrow> byte list result" where
  "appendMultiple opts n [] th = Ok []"
| "appendMultiple opts n (x # xs) th =
     rbind (append opts n x False th) (\<lambda>a. prepend a (appendMultiple opts n xs th))"

fun isArray :: "jsval \<Rightarrow> bool" where
  "isArray (Arr xs) = True"
| "isArray _ = False"

fun serialize :: "nat \<Rightarrow> jsval \<Rightarrow> options \<Rightarrow> byte list result" where
  "serialize n (Arr xs) opts =
     (if multiple opts then appendMultiple opts n xs (typeHint opts)
      else append opts n (Arr xs) False (typeHint opts))"
| "serialize n data opts =
     (if multiple opts then Throw InvalidArgument
      else append opts n data False (typeHint opts))"

section \<open>The text codec: \<^verbatim>\<open>decodeUtf8\<close>\<close>

text \<open>
  Reading a \<^verbatim>\<open>Uint8Array\<close> past its end yields \<^verbatim>\<open>undefined\<close>: \<open>None\<close> here. In
  \<^verbatim>\<open>decodeUtf8\<close> no comparison holds of an \<^verbatim>\<open>undefined\<close> lead byte, so the last
  \<^verbatim>\<open>throw\<close> statement of the loop body is reached, and the \<^verbatim>\<open>c.toString(16)\<close> in its
  message throws a \<^verbatim>\<open>TypeError\<close> first.
\<close>

definition byte_at :: "byte list \<Rightarrow> nat \<Rightarrow> nat option" where
  "byte_at array i = (if i < length array then Some (unat (array ! i)) else None)"

definition cont :: "byte list \<Rightarrow> nat \<Rightarrow> nat" where
  \<comment> \<open>\<^verbatim>\<open>bytes[i++] & 63\<close>; \<^verbatim>\<open>undefined & 63\<close> is 0\<close>
  "cont bytes i = (case byte_at bytes i of None \<Rightarrow> 0 | Some b \<Rightarrow> b AND 63)"

definition fromCodePoint :: "nat \<Rightarrow> jstring result" where
  \<comment> \<open>the last statement of the loop body: one code unit, a surrogate pair, or the exception\<close>
  "fromCodePoint c =
     (if c \<le> 0xffff then Ok [of_nat c]
      else if c \<le> 0x10ffff then
        Ok [of_nat (drop_bit 10 (c - 0x10000) OR 0xd800), of_nat (((c - 0x10000) AND 0x3ff) OR 0xdc00)]
      else Throw DecodingError)"

definition decodeUtf8_step :: "byte list \<Rightarrow> nat \<Rightarrow> nat \<Rightarrow> (jstring \<times> nat) result" where
  \<comment> \<open>one round of the loop at index \<open>i\<close>: the code units appended and the next index\<close>
  "decodeUtf8_step bytes i stop =
     (case byte_at bytes i of
        None \<Rightarrow> Throw TypeError
      | Some c \<Rightarrow>
          if c > 127 then
            if c > 191 \<and> c < 224 then
              if i + 1 \<ge> stop then Throw DecodingError
              else rbind (fromCodePoint (push_bit 6 (c AND 31) OR cont bytes (i + 1)))
                     (\<lambda>s. Ok (s, i + 2))
            else if c > 223 \<and> c < 240 then
              if i + 2 \<ge> stop then Throw DecodingError
              else rbind (fromCodePoint (push_bit 12 (c AND 15) OR push_bit 6 (cont bytes (i + 1))
                                         OR cont bytes (i + 2)))
                     (\<lambda>s. Ok (s, i + 3))
            else if c > 239 \<and> c < 248 then
              if i + 3 \<ge> stop then Throw DecodingError
              else rbind (fromCodePoint (push_bit 18 (c AND 7) OR push_bit 12 (cont bytes (i + 1))
                                         OR push_bit 6 (cont bytes (i + 2)) OR cont bytes (i + 3)))
                     (\<lambda>s. Ok (s, i + 4))
            else Throw DecodingError
          else rbind (fromCodePoint c) (\<lambda>s. Ok (s, i + 1)))"

lemma fromCodePoint_Ok:
  "rbind (fromCodePoint c) (\<lambda>s. Ok (s, j)) = Ok (s', i') \<Longrightarrow> i' = j"
  by (cases "fromCodePoint c") auto

lemma decodeUtf8_step_increases:
  "decodeUtf8_step bytes i stop = Ok (s, i') \<Longrightarrow> i < i'"
  unfolding decodeUtf8_step_def
  by (auto split: option.splits if_splits dest!: fromCodePoint_Ok)

function decodeUtf8_loop :: "byte list \<Rightarrow> nat \<Rightarrow> nat \<Rightarrow> jstring \<Rightarrow> jstring result" where
  "decodeUtf8_loop bytes i stop str =
     (if i < stop then
        (case decodeUtf8_step bytes i stop of
           Ok (s, i') \<Rightarrow> decodeUtf8_loop bytes i' stop (str @ s)
         | Throw e \<Rightarrow> Throw e
         | OutOfFuel \<Rightarrow> OutOfFuel
         | NotModelled \<Rightarrow> NotModelled)
      else Ok str)"
  by pat_completeness auto
termination
proof (relation "measure (\<lambda>(bytes, i, stop, str). stop - i)")
  show "wf (measure (\<lambda>(bytes, i, stop, str). stop - i))"
    by simp
next
  fix bytes i stop str x s i'
  assume "i < stop" and "decodeUtf8_step bytes i stop = Ok x" and "(s, i') = x"
  then have "i < i'"
    using decodeUtf8_step_increases by metis
  with \<open>i < stop\<close>
  show "((bytes, i', stop, str @ s), (bytes, i, stop, str))
          \<in> measure (\<lambda>(bytes, i, stop, str). stop - i)"
    by simp
qed

declare decodeUtf8_loop.simps [simp del]

definition decodeUtf8 :: "byte list \<Rightarrow> nat \<Rightarrow> nat \<Rightarrow> jstring result" where
  "decodeUtf8 bytes start len = decodeUtf8_loop bytes start (len + start) []"

section \<open>The decoder: \<^verbatim>\<open>deserialize\<close>\<close>

text \<open>
  The array is a \<^verbatim>\<open>Uint8Array\<close> that ends where its buffer ends. \<^verbatim>\<open>pos\<close> is a natural number,
  or \<open>NaN\<close> once a length that was read past the end of the array has been added to it
  (\<open>None\<close> where that can happen). The accumulations of \<^verbatim>\<open>readUInt\<close> and \<^verbatim>\<open>readInt\<close>
  are binary64 operations.
\<close>

definition byte_num :: "byte list \<Rightarrow> nat \<Rightarrow> jsnum" where
  \<comment> \<open>\<^verbatim>\<open>array[pos]\<close> as a Number\<close>
  "byte_num array pos = (case byte_at array pos of None \<Rightarrow> NaN | Some b \<Rightarrow> num (int b))"

fun readUInt_loop :: "byte list \<Rightarrow> nat \<Rightarrow> nat \<Rightarrow> jsnum \<Rightarrow> jsnum \<times> nat" where
  "readUInt_loop array 0 pos v = (v, pos)"
| "readUInt_loop array (Suc n) pos v =
     readUInt_loop array n (pos + 1) (num_add (num_mul v 256) (byte_num array pos))"

definition readUInt :: "byte list \<Rightarrow> nat \<Rightarrow> nat \<Rightarrow> jsnum \<times> nat" where
  "readUInt array n pos = readUInt_loop array n pos (Fin 0)"

definition readInt :: "byte list \<Rightarrow> nat \<Rightarrow> nat \<Rightarrow> jsnum \<times> nat" where
  \<comment> \<open>the first round of the loop, then the rounds of \<open>readUInt\<close>; size is 1, 2, 4 or 8\<close>
  "readInt array n pos =
     (let first = (case byte_at array pos of
                     None \<Rightarrow> 0
                   | Some b \<Rightarrow> int (b AND 0x7f) - (if b AND 0x80 \<noteq> 0 then 0x80 else 0))
      in readUInt_loop array (n - 1) (pos + 1) (num first))"

text \<open>
  \<^verbatim>\<open>readFloat\<close> reads through a \<^verbatim>\<open>DataView\<close> on the buffer of the array, at
  \<^verbatim>\<open>pos + array.byteOffset\<close>. The array is taken to end where its buffer ends, as the
  \<^verbatim>\<open>Uint8Array\<close> does that \<^verbatim>\<open>deserialize\<close> makes of an \<^verbatim>\<open>ArrayBuffer\<close> or of an
  \<^verbatim>\<open>Array\<close>: the constructor then throws a \<^verbatim>\<open>RangeError\<close> exactly when the float does
  not fit the array. (On a view that ends before its buffer does, a float that starts inside
  the array is completed with the bytes of the buffer that follow the view.)
\<close>

definition readFloat :: "byte list \<Rightarrow> nat \<Rightarrow> nat \<Rightarrow> (jsval \<times> nat option) result" where
  "readFloat array n pos =
     (if length array < pos + n then Throw RangeError
      else Ok (Num ((if n = 4 then getFloat32 else getFloat64) (take n (drop pos array))),
               Some (pos + n)))"

definition readSize :: "byte list \<Rightarrow> jsnum \<Rightarrow> nat \<Rightarrow> nat \<Rightarrow> jsnum \<times> nat" where
  \<comment> \<open>\<^verbatim>\<open>if (size < 0) size = readUInt(lengthSize);\<close>\<close>
  "readSize array sz lengthSize pos =
     (if js_lt sz (Fin 0) then readUInt array lengthSize pos else (sz, pos))"

fun size_nat :: "jsnum \<Rightarrow> nat option" where
  \<comment> \<open>a size as a natural number; \<open>None\<close> for \<open>NaN\<close>\<close>
  "size_nat (Fin q) = Some (nat \<lfloor>q\<rfloor>)"
| "size_nat NegZero = Some 0"
| "size_nat _ = None"

definition readBin :: "byte list \<Rightarrow> jsnum \<Rightarrow> nat \<Rightarrow> nat \<Rightarrow> byte list \<times> nat option" where
  \<comment> \<open>\<^verbatim>\<open>subarray\<close> clamps its bounds; a \<open>NaN\<close> end is 0\<close>
  "readBin array sz lengthSize pos =
     (let (sz, pos) = readSize array sz lengthSize pos
      in case size_nat sz of
           Some n \<Rightarrow> (take n (drop pos array), Some (pos + n))
         | None \<Rightarrow> ([], None))"

definition readStr :: "byte list \<Rightarrow> jsnum \<Rightarrow> nat \<Rightarrow> nat \<Rightarrow> (jsval \<times> nat option) result" where
  "readStr array sz lengthSize pos =
     (let (sz, pos) = readSize array sz lengthSize pos
      in case size_nat sz of
           Some n \<Rightarrow> rbind (decodeUtf8 array pos n) (\<lambda>s. Ok (Str s, Some (pos + n)))
         | None \<Rightarrow> Ok (Str [], None))"

definition newDate :: "jsnum \<Rightarrow> jsval" where
  \<comment> \<open>\<^verbatim>\<open>new Date(x)\<close>: the time value is \<open>x\<close> truncated, invalid beyond 8.64e15\<close>
  "newDate x =
     Date (case x of
             Fin q \<Rightarrow> if \<bar>q\<bar> \<le> 8640000000000000 then Some (js_trunc q) else None
           | NegZero \<Rightarrow> Some 0
           | _ \<Rightarrow> None)"

definition data_at :: "byte list \<Rightarrow> nat \<Rightarrow> jsnum" where
  "data_at data i = num (uint (data ! i))"

definition be32 :: "byte list \<Rightarrow> nat \<Rightarrow> jsnum" where
  \<comment> \<open>\<^verbatim>\<open>((data[i] << 24) >>> 0) + ((data[i+1] << 16) >>> 0) + ((data[i+2] << 8) >>> 0) + data[i+3]\<close>\<close>
  "be32 data i =
     num_add (num_add (num_add (ushr (shl (data_at data i) 24) 0) (ushr (shl (data_at data (i + 1)) 16) 0))
                      (ushr (shl (data_at data (i + 2)) 8) 0))
             (data_at data (i + 3))"

definition readExtDate :: "byte list \<Rightarrow> byte list \<Rightarrow> nat option \<Rightarrow> (jsval \<times> nat option) result" where
  "readExtDate array data pos =
     (if length data = 4 then Ok (newDate (num_mul (be32 data 0) 1000), pos)
      else if length data = 8 then
        (let ns = num_add (num_add (num_add (ushr (shl (data_at data 0) 22) 0) (ushr (shl (data_at data 1) 14) 0))
                                   (ushr (shl (data_at data 2) 6) 0))
                          (ushr (data_at data 3) 2);
             sec = num_add (num_add (num_add (num_add
                     (num_mul (bit_and (data_at data 3) (Fin 0x3)) pow32)
                     (ushr (shl (data_at data 4) 24) 0)) (ushr (shl (data_at data 5) 16) 0))
                     (ushr (shl (data_at data 6) 8) 0)) (data_at data 7)
         in Ok (newDate (num_add (num_mul sec 1000) (num_div ns 1000000)), pos))
      else if length data = 12 then
        (case pos of
           Some p \<Rightarrow>
             (let ns = be32 data 0;
                  (sec, pos') = readInt array 8 (p - 8)
              in Ok (newDate (num_add (num_mul sec 1000) (num_div ns 1000000)), Some pos'))
         | None \<Rightarrow> Ok (newDate NaN, None))
      else Throw InvalidExtensionLength)"

definition jstr :: "string \<Rightarrow> jstring" where
  "jstr s = map of_char s"

definition readExt :: "byte list \<Rightarrow> jsnum \<Rightarrow> nat \<Rightarrow> nat \<Rightarrow> (jsval \<times> nat option) result" where
  "readExt array sz lengthSize pos =
     (let (sz, pos) = readSize array sz lengthSize pos;
          (ty, pos) = readUInt array 1 pos;
          (data, pos) = readBin array sz 0 pos
      in if js_eq ty (Fin 255) then readExtDate array data pos
         else Ok (Obj [(jstr ''type'', Num ty), (jstr ''data'', Bytes data)], pos))"

subsection \<open>Property keys and property assignment\<close>

text \<open>
  \<^verbatim>\<open>data[key] = read()\<close> converts the key to a property key. The conversion is written
  out for strings, \<^verbatim>\<open>null\<close>, booleans and the integers below \<open>2^53\<close> in magnitude,
  which are printed as plain decimal numerals, for the three special Numbers, and for
  arrays and binary data, whose \<^verbatim>\<open>toString\<close> is \<^verbatim>\<open>join\<close>: the conversions of the
  elements separated by commas, with the empty string for \<^verbatim>\<open>null\<close> and \<^verbatim>\<open>undefined\<close>.
  The conversion of the other values (objects, dates, the other Numbers) is the host's
  \<^verbatim>\<open>ToPrimitive\<close> and number formatting, and is a parameter \<open>host\<close> of the decoder; it
  can throw. The key is converted after the value has been read.
\<close>

fun digits :: "nat \<Rightarrow> nat list" where
  "digits n = (if n < 10 then [n] else digits (n div 10) @ [n mod 10])"

declare digits.simps [simp del]

definition decimal :: "int \<Rightarrow> jstring" where
  "decimal i = (if i < 0 then [0x2d] else []) @ map (\<lambda>d. of_nat (0x30 + d)) (digits (nat \<bar>i\<bar>))"

fun Number_toString :: "(jsval \<Rightarrow> jstring result) \<Rightarrow> jsnum \<Rightarrow> jstring result" where
  "Number_toString host (Fin q) =
     (if of_int \<lfloor>q\<rfloor> = q \<and> \<bar>q\<bar> < 2 ^ 53 then Ok (decimal \<lfloor>q\<rfloor>) else host (Num (Fin q)))"
| "Number_toString host NegZero = Ok (decimal 0)"
| "Number_toString host NaN = Ok (jstr ''NaN'')"
| "Number_toString host PosInf = Ok (jstr ''Infinity'')"
| "Number_toString host NegInf = Ok (jstr ''-Infinity'')"

fun join_strings :: "jstring list \<Rightarrow> jstring" where
  "join_strings [] = []"
| "join_strings [s] = s"
| "join_strings (s # t # ss) = s @ [0x2c] @ join_strings (t # ss)"

fun ToPropertyKey :: "(jsval \<Rightarrow> jstring result) \<Rightarrow> jsval \<Rightarrow> jstring result"
  and elements :: "(jsval \<Rightarrow> jstring result) \<Rightarrow> jsval list \<Rightarrow> jstring list result"
where
  "ToPropertyKey host (Str s) = Ok s"
| "ToPropertyKey host (Num x) = Number_toString host x"
| "ToPropertyKey host Null = Ok (jstr ''null'')"
| "ToPropertyKey host Undefined = Ok (jstr ''undefined'')"
| "ToPropertyKey host (Bool b) = Ok (jstr (if b then ''true'' else ''false''))"
| "ToPropertyKey host (Arr xs) = rbind (elements host xs) (\<lambda>ss. Ok (join_strings ss))"
| "ToPropertyKey host (Bytes bs) = Ok (join_strings (map (\<lambda>b. decimal (uint b)) bs))"
| "ToPropertyKey host v = host v"
| "elements host [] = Ok []"
| "elements host (Undefined # xs) = rbind (elements host xs) (\<lambda>ss. Ok ([] # ss))"
| "elements host (Null # xs) = rbind (elements host xs) (\<lambda>ss. Ok ([] # ss))"
| "elements host (x # xs) =
     rbind (ToPropertyKey host x) (\<lambda>s. rbind (elements host xs) (\<lambda>ss. Ok (s # ss)))"

text \<open>
  The own properties of an object are given in enumeration order: the array indices
  (canonical decimal strings below \<open>2^32 - 1\<close>) in ascending order first, then the other
  keys in the order of their creation. Assigning to an existing property replaces its value
  in place.
\<close>

definition array_index :: "jstring \<Rightarrow> nat option" where
  "array_index s =
     (let v = foldl (\<lambda>a c. 10 * a + (uint c - 0x30)) 0 s
      in if s \<noteq> [] \<and> list_all (\<lambda>c. 0x30 \<le> c \<and> c \<le> 0x39) s
            \<and> (if hd s = 0x30 then s = [0x30] else True) \<and> v < 2 ^ 32 - 1
         then Some (nat v) else None)"

fun insert_index :: "nat \<Rightarrow> jstring \<Rightarrow> jsval \<Rightarrow> (jstring \<times> jsval) list \<Rightarrow> (jstring \<times> jsval) list" where
  "insert_index i k v [] = [(k, v)]"
| "insert_index i k v (e # es) =
     (case array_index (fst e) of
        Some j \<Rightarrow> if j < i then e # insert_index i k v es else (k, v) # e # es
      | None \<Rightarrow> (k, v) # e # es)"

definition define_property :: "jstring \<Rightarrow> jsval \<Rightarrow> (jstring \<times> jsval) list \<Rightarrow> (jstring \<times> jsval) list" where
  "define_property k v data =
     (if k \<in> set (map fst data) then map (\<lambda>e. if fst e = k then (k, v) else e) data
      else case array_index k of
             Some i \<Rightarrow> insert_index i k v data
           | None \<Rightarrow> data @ [(k, v)])"

text \<open>
  The assignment \<^verbatim>\<open>data[key] = value\<close> on the object under construction. The object
  is its prototype, \<open>None\<close> as long as it is the \<^verbatim>\<open>Object.prototype\<close> that \<^verbatim>\<open>{}\<close> gave it,
  and its own properties. An own property is a writable data property, and the assignment
  replaces its value. For any other key the prototype chain decides (\<open>inherited_from\<close>):

    \<^item> \<open>Creates\<close>: the chain has no such property, or a writable data property; the
      property is created on the object itself. All properties of \<^verbatim>\<open>Object.prototype\<close>,
      \<^verbatim>\<open>Array.prototype\<close> and \<^verbatim>\<open>Date.prototype\<close> but one are of this kind.
    \<^item> \<open>Setter\<close>: the key is \<^verbatim>\<open>__proto__\<close> and the chain reaches \<^verbatim>\<open>Object.prototype\<close>, whose
      \<^verbatim>\<open>__proto__\<close> is an accessor. Its setter replaces the prototype of the object when
      the value is an object or \<^verbatim>\<open>null\<close>, and does nothing otherwise. No property is
      created in either case.
    \<^item> \<open>ReadOnly\<close>: the chain has an accessor without a setter or a data property that is
      not writable (those of the typed arrays); the assignment throws a \<^verbatim>\<open>TypeError\<close>,
      the source being strict code.
    \<^item> \<open>Unknown\<close>: the model does not follow the source. This is so below a typed array
      for the keys that may be canonical numeric strings (what the assignment does there
      depends on the edition of the language), and below a function.
\<close>

datatype inherited = Creates | Setter | ReadOnly | Unknown

definition object_prototype :: "jstring \<Rightarrow> inherited" where
  "object_prototype k = (if k = jstr ''__proto__'' then Setter else Creates)"

definition numeric_like :: "jstring \<Rightarrow> bool" where
  \<comment> \<open>as every canonical numeric string: \<^verbatim>\<open>NaN\<close>, \<^verbatim>\<open>Infinity\<close>, \<^verbatim>\<open>-Infinity\<close>, or a digit
      after an optional \<^verbatim>\<open>-\<close>\<close>
  "numeric_like k =
     (k = jstr ''NaN'' \<or> k = jstr ''Infinity'' \<or> k = jstr ''-Infinity''
      \<or> (case k of
            [] \<Rightarrow> False
          | c # cs \<Rightarrow> (0x30 \<le> c \<and> c \<le> 0x39)
                     \<or> (c = 0x2d \<and> (case cs of [] \<Rightarrow> False | c' # cs' \<Rightarrow> 0x30 \<le> c' \<and> c' \<le> 0x39))))"

definition typed_array_prototype :: "jstring \<Rightarrow> inherited" where
  "typed_array_prototype k =
     (if numeric_like k then Unknown
      else if k \<in> set (map jstr [''BYTES_PER_ELEMENT'', ''buffer'', ''byteLength'', ''byteOffset'',
                                  ''length''])
      then ReadOnly
      else object_prototype k)"

fun inherited_from :: "jsval \<Rightarrow> jstring \<Rightarrow> inherited" where
  "inherited_from Null k = Creates"
| "inherited_from (Obj es) k = (if k \<in> set (map fst es) then Creates else object_prototype k)"
| "inherited_from (ObjP p es) k = (if k \<in> set (map fst es) then Creates else inherited_from p k)"
| "inherited_from (Arr xs) k = object_prototype k"
| "inherited_from (Date t) k = object_prototype k"
| "inherited_from (Bytes bs) k = typed_array_prototype k"
| "inherited_from (TypedArr xs) k = typed_array_prototype k"
| "inherited_from v k = Unknown"

fun is_object :: "jsval \<Rightarrow> bool" where
  "is_object (Obj es) = True"
| "is_object (ObjP p es) = True"
| "is_object (Arr xs) = True"
| "is_object (Date t) = True"
| "is_object (Bytes bs) = True"
| "is_object (TypedArr xs) = True"
| "is_object Function = True"
| "is_object v = False"

type_synonym object = "jsval option \<times> (jstring \<times> jsval) list"

definition obj_set :: "object \<Rightarrow> jstring \<Rightarrow> jsval \<Rightarrow> object result" where
  "obj_set data k v =
     (let proto = fst data; es = snd data
      in if k \<in> set (map fst es) then Ok (proto, define_property k v es)
         else case (case proto of None \<Rightarrow> object_prototype k | Some p \<Rightarrow> inherited_from p k) of
                Creates \<Rightarrow> Ok (proto, define_property k v es)
              | Setter \<Rightarrow> Ok (if is_object v \<or> v = Null then (Some v, es) else (proto, es))
              | ReadOnly \<Rightarrow> Throw TypeError
              | Unknown \<Rightarrow> NotModelled)"

definition object_value :: "object \<Rightarrow> jsval" where
  \<comment> \<open>the object that \<^verbatim>\<open>readMap\<close> returns\<close>
  "object_value data = (case fst data of None \<Rightarrow> Obj (snd data) | Some p \<Rightarrow> ObjP p (snd data))"

subsection \<open>\<^verbatim>\<open>read\<close>\<close>

text \<open>
  \<^verbatim>\<open>read\<close> dispatches on the tag byte. The dispatch itself is \<open>dispatch\<close>: it returns what
  \<^verbatim>\<open>read\<close> returns or throws for the tags of scalars, strings, binary data and extensions,
  and for a map or an array the number of rounds of the loop of \<^verbatim>\<open>readMap\<close> or
  \<^verbatim>\<open>readArray\<close> and the position where it starts (a \<open>NaN\<close> size is no round at all).
  The second argument of \<open>read\<close> bounds the nesting depth of its calls. A tag read past the
  end of the array (or at a \<open>NaN\<close> position) is \<^verbatim>\<open>undefined\<close>: no comparison holds and
  the last statement throws.
\<close>

datatype step = Return "(jsval \<times> nat option) result" | ReadMap nat nat | ReadArray nat nat

definition rounds :: "jsnum \<Rightarrow> nat" where
  \<comment> \<open>the rounds of \<^verbatim>\<open>while (size-- > 0)\<close>\<close>
  "rounds sz = (case size_nat sz of Some n \<Rightarrow> n | None \<Rightarrow> 0)"

definition readMap :: "byte list \<Rightarrow> jsnum \<Rightarrow> nat \<Rightarrow> nat \<Rightarrow> step" where
  "readMap array sz lengthSize pos =
     (let (sz, pos) = readSize array sz lengthSize pos in ReadMap (rounds sz) pos)"

definition readArray :: "byte list \<Rightarrow> jsnum \<Rightarrow> nat \<Rightarrow> nat \<Rightarrow> step" where
  "readArray array sz lengthSize pos =
     (let (sz, pos) = readSize array sz lengthSize pos in ReadArray (rounds sz) pos)"

definition returnBin :: "byte list \<times> nat option \<Rightarrow> step" where
  "returnBin r = Return (Ok (Bytes (fst r), snd r))"

definition returnNum :: "jsnum \<times> nat \<Rightarrow> step" where
  "returnNum r = Return (Ok (Num (fst r), Some (snd r)))"

definition dispatch :: "byte list \<Rightarrow> nat \<Rightarrow> nat \<Rightarrow> step" where
  "dispatch array byte pos =
     (if byte \<le> 0x7f then Return (Ok (Num (num (int byte)), Some pos))
      else if byte \<ge> 0x80 \<and> byte \<le> 0x8f then readMap array (num (int byte - 0x80)) 0 pos
      else if byte \<ge> 0x90 \<and> byte \<le> 0x9f then readArray array (num (int byte - 0x90)) 0 pos
      else if byte \<ge> 0xa0 \<and> byte \<le> 0xbf then Return (readStr array (num (int byte - 0xa0)) 0 pos)
      else if byte = 0xc0 then Return (Ok (Null, Some pos))
      else if byte = 0xc1 then Return (Throw InvalidByteCode)
      else if byte = 0xc2 then Return (Ok (Bool False, Some pos))
      else if byte = 0xc3 then Return (Ok (Bool True, Some pos))
      else if byte = 0xc4 then returnBin (readBin array (Fin (- 1)) 1 pos)
      else if byte = 0xc5 then returnBin (readBin array (Fin (- 1)) 2 pos)
      else if byte = 0xc6 then returnBin (readBin array (Fin (- 1)) 4 pos)
      else if byte = 0xc7 then Return (readExt array (Fin (- 1)) 1 pos)
      else if byte = 0xc8 then Return (readExt array (Fin (- 1)) 2 pos)
      else if byte = 0xc9 then Return (readExt array (Fin (- 1)) 4 pos)
      else if byte = 0xca then Return (readFloat array 4 pos)
      else if byte = 0xcb then Return (readFloat array 8 pos)
      else if byte = 0xcc then returnNum (readUInt array 1 pos)
      else if byte = 0xcd then returnNum (readUInt array 2 pos)
      else if byte = 0xce then returnNum (readUInt array 4 pos)
      else if byte = 0xcf then returnNum (readUInt array 8 pos)
      else if byte = 0xd0 then returnNum (readInt array 1 pos)
      else if byte = 0xd1 then returnNum (readInt array 2 pos)
      else if byte = 0xd2 then returnNum (readInt array 4 pos)
      else if byte = 0xd3 then returnNum (readInt array 8 pos)
      else if byte = 0xd4 then Return (readExt array (Fin 1) 0 pos)
      else if byte = 0xd5 then Return (readExt array (Fin 2) 0 pos)
      else if byte = 0xd6 then Return (readExt array (Fin 4) 0 pos)
      else if byte = 0xd7 then Return (readExt array (Fin 8) 0 pos)
      else if byte = 0xd8 then Return (readExt array (Fin 16) 0 pos)
      else if byte = 0xd9 then Return (readStr array (Fin (- 1)) 1 pos)
      else if byte = 0xda then Return (readStr array (Fin (- 1)) 2 pos)
      else if byte = 0xdb then Return (readStr array (Fin (- 1)) 4 pos)
      else if byte = 0xdc then readArray array (Fin (- 1)) 2 pos
      else if byte = 0xdd then readArray array (Fin (- 1)) 4 pos
      else if byte = 0xde then readMap array (Fin (- 1)) 2 pos
      else if byte = 0xdf then readMap array (Fin (- 1)) 4 pos
      else if byte \<ge> 0xe0 \<and> byte \<le> 0xff then Return (Ok (Num (num (int byte - 256)), Some pos))
      else Return (Throw InvalidByteValue))"

lemma rbind_cong [fundef_cong]:
  "m = m' \<Longrightarrow> (\<And>x. m' = Ok x \<Longrightarrow> f x = f' x) \<Longrightarrow> rbind m f = rbind m' f'"
  by (cases m') auto

function read :: "(jsval \<Rightarrow> jstring result) \<Rightarrow> nat \<Rightarrow> byte list \<Rightarrow> nat option
                \<Rightarrow> (jsval \<times> nat option) result"
  and readMap_loop :: "(jsval \<Rightarrow> jstring result) \<Rightarrow> nat \<Rightarrow> byte list \<Rightarrow> nat \<Rightarrow> nat option
                \<Rightarrow> object \<Rightarrow> (jsval \<times> nat option) result"
  and readArray_loop :: "(jsval \<Rightarrow> jstring result) \<Rightarrow> nat \<Rightarrow> byte list \<Rightarrow> nat \<Rightarrow> nat option
                \<Rightarrow> jsval list \<Rightarrow> (jsval \<times> nat option) result"
where
  "read host 0 array pos = OutOfFuel"
| "read host (Suc d) array None = Throw InvalidByteValue"
| "read host (Suc d) array (Some p) =
     (case byte_at array p of
        None \<Rightarrow> Throw InvalidByteValue
      | Some byte \<Rightarrow>
          (case dispatch array byte (p + 1) of
             Return r \<Rightarrow> r
           | ReadMap n pos \<Rightarrow> readMap_loop host d array n (Some pos) (None, [])
           | ReadArray n pos \<Rightarrow> readArray_loop host d array n (Some pos) []))"
| "readMap_loop host d array 0 pos data = Ok (object_value data, pos)"
| "readMap_loop host d array (Suc n) pos data =
     rbind (read host d array pos) (\<lambda>r1.
     rbind (read host d array (snd r1)) (\<lambda>r2.
     rbind (ToPropertyKey host (fst r1)) (\<lambda>k.
     rbind (obj_set data k (fst r2)) (\<lambda>data'.
     readMap_loop host d array n (snd r2) data'))))"
| "readArray_loop host d array 0 pos data = Ok (Arr data, pos)"
| "readArray_loop host d array (Suc n) pos data =
     rbind (read host d array pos) (\<lambda>r.
     readArray_loop host d array n (snd r) (data @ [fst r]))"
  by pat_completeness auto
termination
  by (relation "measures
        [\<lambda>x. case x of Inl (h, d, a, p) \<Rightarrow> d
                      | Inr (Inl (h, d, a, n, p, da)) \<Rightarrow> d
                      | Inr (Inr (h, d, a, n, p, da)) \<Rightarrow> d,
         \<lambda>x. case x of Inl (h, d, a, p) \<Rightarrow> 0
                      | Inr (Inl (h, d, a, n, p, da)) \<Rightarrow> Suc n
                      | Inr (Inr (h, d, a, n, p, da)) \<Rightarrow> Suc n]") auto

text \<open>
  With \<^verbatim>\<open>multiple\<close>, values are read while \<^verbatim>\<open>pos < array.length\<close>; the first argument
  of the loop bounds the number of values read.
\<close>

fun readMultiple :: "nat \<Rightarrow> (jsval \<Rightarrow> jstring result) \<Rightarrow> nat \<Rightarrow> byte list \<Rightarrow> nat option
                       \<Rightarrow> jsval list \<Rightarrow> jsval result" where
  "readMultiple k host d array None data = Ok (Arr data)"
| "readMultiple 0 host d array (Some p) data =
     (if p < length array then OutOfFuel else Ok (Arr data))"
| "readMultiple (Suc k) host d array (Some p) data =
     (if p < length array then
        rbind (read host d array (Some p)) (\<lambda>r.
        readMultiple k host d array (snd r) (data @ [fst r]))
      else Ok (Arr data))"

text \<open>
  \<open>deserialize\<close> takes the bytes of the array (an \<^verbatim>\<open>ArrayBuffer\<close> or an \<^verbatim>\<open>Array\<close> is
  converted to them first). Every call of \<^verbatim>\<open>read\<close> that returns has consumed a byte, so
  the nesting depth and the number of values are bounded by the length of the array.
\<close>

definition deserialize :: "(jsval \<Rightarrow> jstring result) \<Rightarrow> byte list \<Rightarrow> options \<Rightarrow> jsval result" where
  "deserialize host array opts =
     (if array = [] then Throw InvalidArgument
      else if multiple opts then
        readMultiple (length array) host (Suc (length array)) array (Some 0) []
      else rbind (read host (Suc (length array)) array (Some 0)) (\<lambda>r. Ok (fst r)))"

section \<open>Notions used by the claims\<close>

text \<open>
  The values of an unsupported type: those whose \<^verbatim>\<open>typeof\<close> reaches the \<^verbatim>\<open>default\<close>
  case of \<^verbatim>\<open>append\<close>.
\<close>

fun unsupported :: "jsval \<Rightarrow> bool" where
  "unsupported Function = True"
| "unsupported Symbol = True"
| "unsupported (BigInt i) = True"
| "unsupported _ = False"

text \<open>
  The surrogate code units, and the strings with a high surrogate that is not immediately
  followed by a low surrogate.
\<close>

definition high_surrogate :: "16 word \<Rightarrow> bool" where
  "high_surrogate u = (0xd800 \<le> unat u \<and> unat u \<le> 0xdbff)"

definition low_surrogate :: "16 word \<Rightarrow> bool" where
  "low_surrogate u = (0xdc00 \<le> unat u \<and> unat u \<le> 0xdfff)"

definition unpaired_high :: "jstring \<Rightarrow> bool" where
  "unpaired_high s =
     (\<exists>i < length s. high_surrogate (s ! i) \<and> \<not> (Suc i < length s \<and> low_surrogate (s ! Suc i)))"

text \<open>
  What \<open>dispatch\<close> yields at a position inside the array does not depend on the bytes after
  the position it stops at, and that position is not before the one it starts at.
\<close>

fun stable :: "nat \<Rightarrow> nat \<Rightarrow> step \<Rightarrow> step \<Rightarrow> bool" where
  "stable len pos (Return (Ok (v, Some q))) s' = (pos \<le> q \<and> (if q \<le> len then s' = Return (Ok (v, Some q)) else True))"
| "stable len pos (ReadMap n q) s' = (pos \<le> q \<and> (if q \<le> len then s' = ReadMap n q else True))"
| "stable len pos (ReadArray n q) s' = (pos \<le> q \<and> (if q \<le> len then s' = ReadArray n q else True))"
| "stable len pos s s' = True"

text \<open>
  The fuel \<open>d\<close> suffices at position \<open>pos\<close> of an array of \<open>len\<close> bytes: every level of
  nesting consumes at least the byte of its tag.
\<close>

fun fuel_ok :: "nat \<Rightarrow> nat \<Rightarrow> nat option \<Rightarrow> bool" where
  "fuel_ok len d None = True"
| "fuel_ok len d (Some p) = (len < d + p)"

text \<open>
  The entries of an encoded map: \<open>n\<close> keys, each followed by its value, read one after the
  other from position \<open>pos\<close>, with the position after the last value.
\<close>

fun readPairs :: "(jsval \<Rightarrow> jstring result) \<Rightarrow> nat \<Rightarrow> byte list \<Rightarrow> nat \<Rightarrow> nat option
                    \<Rightarrow> ((jsval \<times> jsval) list \<times> nat option) result" where
  "readPairs host d array 0 pos = Ok ([], pos)"
| "readPairs host d array (Suc n) pos =
     rbind (read host d array pos) (\<lambda>r1.
     rbind (read host d array (snd r1)) (\<lambda>r2.
     rbind (readPairs host d array n (snd r2)) (\<lambda>r.
     Ok ((fst r1, fst r2) # fst r, snd r))))"
section \<open>Binary64 rounding is exact on the integers below \<open>2^53\<close>\<close>

lemma round_half_even_of_int: "round_half_even (of_int m) = m"
  by (simp add: round_half_even_def)

lemma bitlen_one: "bitlen 1 = 1"
  by (simp add: bitlen_alt_def)

lemma ilog2_of_int:
  assumes "0 < n"
  shows "ilog2 (of_int n) = bitlen n - 1"
proof -
  have b: "2 ^ nat (bitlen n - 1) \<le> n" using bitlen_bounds[OF assms] by simp
  have "1 \<le> bitlen n" using assms by (simp add: bitlen_alt_def)
  then have "pow2 (bitlen n - 1) = of_int (2 ^ nat (bitlen n - 1))"
    by (simp add: pow2_def)
  also have "\<dots> \<le> of_int n" using b by (simp only: of_int_le_iff)
  finally show ?thesis
    by (simp add: ilog2_def Let_def bitlen_one)
qed

lemma pow2_neg: "pow2 (- int k) = 1 / 2 ^ k"
  by (simp add: pow2_def)

lemma fl_of_nat_pos:
  assumes "0 < n" "n < 2 ^ 53"
  shows "fl (of_int n) = Fin (of_int n)" and "fl (- of_int n) = Fin (- of_int n)"
proof -
  have d0: "1 \<le> bitlen n" using assms by (simp add: bitlen_alt_def)
  have lo: "2 ^ nat (bitlen n - 1) \<le> n" using bitlen_bounds[OF assms(1)] by simp
  have "bitlen n \<le> 53"
  proof (rule ccontr)
    assume "\<not> bitlen n \<le> 53"
    then have "54 \<le> bitlen n" by simp
    then have "(2::int) ^ 53 \<le> 2 ^ nat (bitlen n - 1)" by (intro power_increasing) auto
    with lo assms show False by simp
  qed
  then have "0 \<le> 53 - bitlen n" by simp
  then obtain k where "53 - bitlen n = int k" using nonneg_int_cases by blast
  then have k: "bitlen n - 1 - 52 = - int k" by simp
  have ue: "ulp_exp (of_int n) = - int k"
    using d0 k by (simp add: ulp_exp_def ilog2_of_int[OF assms(1)])
  have q: "of_int n / pow2 (- int k) = (of_int (n * 2 ^ k) :: rat)"
    by (simp add: pow2_neg)
  have r: "of_int (round_half_even (of_int n / pow2 (- int k))) * pow2 (- int k) = (of_int n :: rat)"
    unfolding q round_half_even_of_int by (simp add: pow2_neg)
  have small: "\<not> pow2 1024 \<le> (of_int n :: rat)"
  proof -
    have "(of_int n :: rat) < of_int (2 ^ 53)" using assms(2) by (simp only: of_int_less_iff)
    also have "\<dots> \<le> pow2 1024" by (simp add: pow2_def)
    finally show ?thesis by simp
  qed
  have npos: "(0::rat) < of_int n" using assms by simp
  show "fl (of_int n) = Fin (of_int n)"
    using npos small by (simp add: fl_def Let_def ue r)
  show "fl (- of_int n) = Fin (- of_int n)"
    using npos small by (simp add: fl_def Let_def ue r)
qed

lemma fl_of_int: "\<bar>i\<bar> < 2 ^ 53 \<Longrightarrow> fl (of_int i) = Fin (of_int i)"
proof (cases "i = 0")
  case True then show ?thesis by (simp add: fl_def)
next
  case False
  assume a: "\<bar>i\<bar> < 2 ^ 53"
  show ?thesis
  proof (cases "0 < i")
    case True with a fl_of_nat_pos(1)[of i] show ?thesis by simp
  next
    case F: False
    with False a have "0 < - i" "- i < 2 ^ 53" by auto
    from fl_of_nat_pos(2)[OF this] show ?thesis by simp
  qed
qed

lemma fl_numeral: "(numeral k :: int) < 2 ^ 53 \<Longrightarrow> fl (numeral k) = Fin (numeral k)"
  using fl_of_int[of "numeral k"] by simp

lemma fl_neg_numeral: "(numeral k :: int) < 2 ^ 53 \<Longrightarrow> fl (- numeral k) = Fin (- numeral k)"
  using fl_of_int[of "- numeral k"] by simp

lemma fl_zero: "fl 0 = Fin 0"
  by (simp add: fl_def)

lemma fl_one: "fl 1 = Fin 1"
  using fl_of_int[of 1] by simp

lemma fl_neg_one: "fl (- 1) = Fin (- 1)"
  using fl_of_int[of "- 1"] by simp

lemma lit_max_uint64: "lit 0xffffffffffffffff = Fin 18446744073709551616"
  unfolding lit_def by code_simp

lemma lit_max_int64: "lit 0x7fffffffffffffff = Fin 9223372036854775808"
  unfolding lit_def by code_simp

lemma floor_rat_numeral:
  "\<lfloor>(numeral a :: rat) / numeral b\<rfloor> = numeral a div numeral b"
  "\<lfloor>- ((numeral a :: rat) / numeral b)\<rfloor> = - numeral a div numeral b"
  "\<lfloor>(1 :: rat) / numeral b\<rfloor> = 1 div numeral b"
  "\<lfloor>- ((1 :: rat) / numeral b)\<rfloor> = - 1 div numeral b"
  using floor_divide_of_int_eq[of "numeral a" "numeral b", where ?'a = rat]
        floor_divide_of_int_eq[of "- numeral a" "numeral b", where ?'a = rat]
        floor_divide_of_int_eq[of 1 "numeral b", where ?'a = rat]
        floor_divide_of_int_eq[of "- 1" "numeral b", where ?'a = rat]
  by simp_all

lemma ceiling_rat_numeral:
  "\<lceil>(numeral a :: rat) / numeral b\<rceil> = - (- numeral a div numeral b)"
  "\<lceil>- ((numeral a :: rat) / numeral b)\<rceil> = - (numeral a div numeral b)"
  "\<lceil>(1 :: rat) / numeral b\<rceil> = - (- 1 div numeral b)"
  "\<lceil>- ((1 :: rat) / numeral b)\<rceil> = - (1 div numeral b)"
  unfolding ceiling_def by (simp_all add: floor_rat_numeral)

lemma js_trunc_of_int: "js_trunc (of_int i) = i"
  by (simp add: js_trunc_def)

lemma js_trunc_numeral:
  "js_trunc 0 = 0"
  "js_trunc 1 = 1"
  "js_trunc (- 1) = - 1"
  "js_trunc (numeral k) = numeral k"
  "js_trunc (- numeral k) = - numeral k"
  using js_trunc_of_int[of 0] js_trunc_of_int[of 1] js_trunc_of_int[of "- 1"]
        js_trunc_of_int[of "numeral k"] js_trunc_of_int[of "- numeral k"]
  by simp_all

lemma js_trunc_fraction:
  "js_trunc (numeral a / numeral b) = numeral a div numeral b"
  "js_trunc (- (numeral a / numeral b)) = - (numeral a div numeral b)"
  "js_trunc (1 / numeral b) = 1 div numeral b"
  "js_trunc (- (1 / numeral b)) = - (1 div numeral b)"
  by (simp_all add: js_trunc_def floor_rat_numeral ceiling_rat_numeral)

lemmas rat_simps = js_trunc_numeral js_trunc_fraction

lemmas fl_simps = fl_numeral fl_neg_numeral fl_zero fl_one fl_neg_one

lemmas num_simps = js_le_def js_gt_def js_ge_def ToInt32_def num_def ushr_def shl_def
  bit_or_def bit_and_def bit_not_def u8_def pow32_def rat_simps fl_simps Let_def

lemma readUInt_loop_unfold:
  "0 < n \<Longrightarrow> readUInt_loop array n pos v =
     readUInt_loop array (n - 1) (pos + 1) (num_add (num_mul v 256) (byte_num array pos))"
  by (cases n) simp_all

lemmas read_simps = deserialize_def no_options_def byte_at_def dispatch_def returnNum_def
  returnBin_def readInt_def readUInt_def byte_num_def readSize_def readBin_def readExt_def
  readExtDate_def be32_def data_at_def newDate_def readMap_def readArray_def rounds_def
  readStr_def readFloat_def readUInt_loop_unfold

lemma fl_m55: "fl (- 36028797018963968) = Fin (- 36028797018963968)"
  by code_simp

lemma fl_m63: "fl (- 9223372036854775808) = Fin (- 9223372036854775808)"
  by code_simp

lemma fl_m3_2: "fl (- (3 / 2)) = Fin (- (3 / 2))"
  by code_simp

lemma fl_m1_2: "fl (- (1 / 2)) = Fin (- (1 / 2))"
  by code_simp

lemma fl_tiny: "fl (1 / 8589934592) = Fin (1 / 8589934592)"
  by code_simp

section \<open>The text codec\<close>

lemma unpaired_high_Nil: "\<not> unpaired_high []"
  by (simp add: unpaired_high_def)

lemma unpaired_high_Cons:
  "unpaired_high (u # us) =
     ((high_surrogate u \<and> \<not> (us \<noteq> [] \<and> low_surrogate (hd us))) \<or> unpaired_high us)"
proof -
  have "unpaired_high (u # us) =
        ((high_surrogate u \<and> \<not> (0 < length us \<and> low_surrogate (us ! 0)))
         \<or> (\<exists>i < length us. high_surrogate (us ! i) \<and> \<not> (Suc i < length us \<and> low_surrogate (us ! Suc i))))"
    unfolding unpaired_high_def
    by (auto simp: Ex_less_Suc2)
  then show ?thesis
    by (cases us) (simp_all add: unpaired_high_def)
qed

lemma low_not_high: "low_surrogate u \<Longrightarrow> \<not> high_surrogate u"
  by (simp add: low_surrogate_def high_surrogate_def)

lemma prepend_Throw: "prepend bs x = Throw e \<longleftrightarrow> x = Throw e"
  by (cases x) simp_all

lemma prepend_Ok: "(\<exists>r. prepend bs x = Ok r) \<longleftrightarrow> (\<exists>r. x = Ok r)"
  by (cases x) simp_all

section \<open>The encoder\<close>

lemma append_unsupported_replacement:
  "unsupported v \<Longrightarrow> append opts n v True th = Throw UnsupportedType"
  by (cases v) simp_all

text \<open>
  A replacement that contains a value of an unsupported type is replaced again inside,
  where \<^verbatim>\<open>isReplacement\<close> is \<^verbatim>\<open>undefined\<close>: the source recurses without end, and the model
  runs out of whatever bound it is given.
\<close>

lemma replacement_inside_replacement_recurses:
  assumes "truthy (invalidTypeReplacement opts)"
    and "replace (invalidTypeReplacement opts) Function = Arr [Function]"
  shows "append opts n Function False th = OutOfFuel"
proof (induction n arbitrary: th)
  case 0
  show ?case using assms by simp
next
  case (Suc n)
  show ?case using assms Suc[of NoHint] by simp
qed

lemma appendObject_loop_filter:
  "appendObject_loop opts n (filter (\<lambda>e. snd e \<noteq> Undefined) es) = appendObject_loop opts n es"
  by (induction es) auto

lemma js_trunc_of_nat: "js_trunc (of_nat n) = int n"
  using js_trunc_of_int[of "int n"] by simp

lemma unat_shr_byte: "n < 2 ^ 32 \<Longrightarrow> unat (shr_byte n k) = (n div 2 ^ k) mod 256"
proof -
  assume n: "n < 2 ^ 32"
  then have "int n mod 2 ^ 32 = int n" by simp
  then have "shr_byte n k = word_of_int (int n div 2 ^ k)"
    by (simp add: shr_byte_def u8_def ushr_def num_def js_trunc_of_int js_trunc_of_nat
        word_uint_eq_iff uint_word_of_int mod_mod_cancel)
  then have "uint (shr_byte n k) = (int n div 2 ^ k) mod 256"
    by (simp add: uint_word_of_int)
  also have "\<dots> = int ((n div 2 ^ k) mod 256)"
    by (simp add: zdiv_int zmod_int)
  finally show ?thesis
    by (simp add: unat_eq_nat_uint)
qed

lemma unat_of_nat_byte: "unat (of_nat n :: byte) = n mod 256"
  by (simp add: unat_of_nat)

lemma readUInt_loop_step:
  assumes "byte_at array pos = Some b" "0 \<le> v" "v * 256 + int b < 2 ^ 53"
  shows "readUInt_loop array (Suc k) pos (num v) = readUInt_loop array k (Suc pos) (num (v * 256 + int b))"
proof -
  have "\<bar>v * 256\<bar> < 2 ^ 53" "\<bar>v * 256 + int b\<bar> < 2 ^ 53" using assms by auto
  then have "fl (of_int (v * 256)) = Fin (of_int (v * 256))"
       "fl (of_int (v * 256 + int b)) = Fin (of_int (v * 256 + int b))"
    using fl_of_int[of "v * 256"] fl_of_int[of "v * 256 + int b"] by simp_all
  then show ?thesis
    using assms(1) by (simp add: num_def byte_num_def)
qed

lemma rounds_num: "rounds (num (int n)) = n"
  by (simp add: rounds_def num_def)

lemma be16_nat: "n \<le> 0xffff \<Longrightarrow> (n div 2 ^ 8) mod 256 * 256 + n mod 256 = (n::nat)"
proof -
  assume "n \<le> 0xffff"
  then have "n mod (256 * 256) = n" by simp
  then show ?thesis using mod_mult2_eq[of n 256 256] by simp
qed

lemma be32_nat: "n < 2 ^ 32 \<Longrightarrow>
   (((n div 2 ^ 24) mod 256 * 256 + (n div 2 ^ 16) mod 256) * 256 + (n div 2 ^ 8) mod 256) * 256
     + n mod 256 = (n::nat)"
proof -
  assume "n < 2 ^ 32"
  then have s0: "n mod (256 * 16777216) = n" by simp
  have s1: "n mod (256 * 16777216) = 256 * ((n div 256) mod 16777216) + n mod 256"
    by (rule mod_mult2_eq)
  have s2: "(n div 256) mod (256 * 65536) = 256 * ((n div 256 div 256) mod 65536) + (n div 256) mod 256"
    by (rule mod_mult2_eq)
  have s3: "(n div 256 div 256) mod (256 * 256) = 256 * ((n div 256 div 256 div 256) mod 256) + (n div 256 div 256) mod 256"
    by (rule mod_mult2_eq)
  have d2: "n div 256 div 256 = n div 65536" by (simp add: div_mult2_eq[symmetric])
  have d3: "n div 256 div 256 div 256 = n div 16777216" by (simp add: div_mult2_eq[symmetric])
  show ?thesis using s0 s1 s2 s3 d2 d3 by simp
qed
lemma byte_at_lt: "byte_at array p = Some b \<Longrightarrow> b < 256"
  using unsigned_less[of "array ! p", where ?'a = nat] by (auto simp: byte_at_def split: if_splits)

lemma readUInt_2:
  assumes "byte_at array p = Some b1" "byte_at array (Suc p) = Some b2"
  shows "readUInt array 2 p = (num (int b1 * 256 + int b2), Suc (Suc p))"
proof -
  have lt: "b1 < 256" "b2 < 256" using assms byte_at_lt by blast+
  have "readUInt array 2 p = readUInt_loop array (Suc (Suc 0)) p (num 0)"
    by (simp add: readUInt_def num_def numeral_2_eq_2)
  also have "\<dots> = readUInt_loop array (Suc 0) (Suc p) (num (int b1))"
    using readUInt_loop_step[OF assms(1), of 0 "Suc 0"] lt by simp
  also have "\<dots> = readUInt_loop array 0 (Suc (Suc p)) (num (int b1 * 256 + int b2))"
    using readUInt_loop_step[OF assms(2), of "int b1" 0] lt by simp
  finally show ?thesis by simp
qed

lemma readUInt_4:
  assumes "byte_at array p = Some b1" "byte_at array (Suc p) = Some b2"
          "byte_at array (Suc (Suc p)) = Some b3" "byte_at array (Suc (Suc (Suc p))) = Some b4"
  shows "readUInt array 4 p
           = (num (((int b1 * 256 + int b2) * 256 + int b3) * 256 + int b4), Suc (Suc (Suc (Suc p))))"
proof -
  have lt: "b1 < 256" "b2 < 256" "b3 < 256" "b4 < 256" using assms byte_at_lt by blast+
  have "readUInt array 4 p = readUInt_loop array (Suc (Suc (Suc (Suc 0)))) p (num 0)"
    by (simp add: readUInt_def num_def eval_nat_numeral)
  also have "\<dots> = readUInt_loop array (Suc (Suc (Suc 0))) (Suc p) (num (int b1))"
    using readUInt_loop_step[OF assms(1), of 0 "Suc (Suc (Suc 0))"] lt by simp
  also have "\<dots> = readUInt_loop array (Suc (Suc 0)) (Suc (Suc p)) (num (int b1 * 256 + int b2))"
    using readUInt_loop_step[OF assms(2), of "int b1" "Suc (Suc 0)"] lt by simp
  also have "\<dots> = readUInt_loop array (Suc 0) (Suc (Suc (Suc p)))
                       (num ((int b1 * 256 + int b2) * 256 + int b3))"
    using readUInt_loop_step[OF assms(3), of "int b1 * 256 + int b2" "Suc 0"] lt by simp
  also have "\<dots> = readUInt_loop array 0 (Suc (Suc (Suc (Suc p))))
                       (num (((int b1 * 256 + int b2) * 256 + int b3) * 256 + int b4))"
    using readUInt_loop_step[OF assms(4), of "(int b1 * 256 + int b2) * 256 + int b3" 0] lt by simp
  finally show ?thesis by simp
qed

lemma mapHeader_dispatch:
  assumes "n < 2 ^ 32"
  shows "dispatch (mapHeader n @ rest) (unat (hd (mapHeader n))) 1 = ReadMap n (length (mapHeader n))"
proof -
  consider "n \<le> 0xf" | "\<not> n \<le> 0xf" "n \<le> 0xffff" | "\<not> n \<le> 0xffff"
    by linarith
  then show ?thesis
  proof cases
    case 1
    have h: "mapHeader n = [of_nat (0x80 + n)]"
      using 1 by (simp only: mapHeader_def if_True)
    have u: "unat (of_nat (0x80 + n) :: byte) = 0x80 + n"
      using 1 by (simp only: unat_of_nat_byte) simp
    have e: "int (0x80 + n) - 0x80 = int n"
      by simp
    have nonneg: "\<not> js_lt (num (int n)) (Fin 0)"
      by (simp add: num_def)
    have "dispatch ([of_nat (0x80 + n)] @ rest) (0x80 + n) 1 = ReadMap n 1"
      using 1 by (simp add: dispatch_def readMap_def readSize_def e nonneg rounds_num del: of_nat_add)
    then show ?thesis
      unfolding h by (simp add: u del: of_nat_add)
  next
    case 2
    let ?a = "[0xde, shr_byte n 8, of_nat n] @ rest"
    have b: "byte_at ?a 1 = Some ((n div 2 ^ 8) mod 256)" "byte_at ?a (Suc 1) = Some (n mod 256)"
      using assms by (simp_all add: byte_at_def unat_shr_byte unat_of_nat_byte)
    have "int ((n div 2 ^ 8) mod 256) * 256 + int (n mod 256)
            = int ((n div 2 ^ 8) mod 256 * 256 + n mod 256)"
      by simp
    also have "\<dots> = int n"
      using be16_nat[OF 2(2)] by (simp only:)
    finally have v: "int ((n div 2 ^ 8) mod 256) * 256 + int (n mod 256) = int n" .
    have "readUInt ?a 2 1 = (num (int n), 3)"
      using readUInt_2[OF b] unfolding v by simp
    with 2 show ?thesis
      by (simp add: mapHeader_def dispatch_def readMap_def readSize_def rounds_num)
  next
    case 3
    let ?a = "[0xdf, shr_byte n 24, shr_byte n 16, shr_byte n 8, of_nat n] @ rest"
    have b: "byte_at ?a 1 = Some ((n div 2 ^ 24) mod 256)" "byte_at ?a (Suc 1) = Some ((n div 2 ^ 16) mod 256)"
            "byte_at ?a (Suc (Suc 1)) = Some ((n div 2 ^ 8) mod 256)"
            "byte_at ?a (Suc (Suc (Suc 1))) = Some (n mod 256)"
      using assms by (simp_all add: byte_at_def unat_shr_byte unat_of_nat_byte)
    have "((int ((n div 2 ^ 24) mod 256) * 256 + int ((n div 2 ^ 16) mod 256)) * 256
             + int ((n div 2 ^ 8) mod 256)) * 256 + int (n mod 256)
            = int ((((n div 2 ^ 24) mod 256 * 256 + (n div 2 ^ 16) mod 256) * 256
                    + (n div 2 ^ 8) mod 256) * 256 + n mod 256)"
      by simp
    also have "\<dots> = int n"
      using be32_nat[OF assms] by (simp only:)
    finally have v: "((int ((n div 2 ^ 24) mod 256) * 256 + int ((n div 2 ^ 16) mod 256)) * 256
             + int ((n div 2 ^ 8) mod 256)) * 256 + int (n mod 256) = int n" .
    have "readUInt ?a 4 1 = (num (int n), 5)"
      using readUInt_4[OF b] unfolding v by simp
    with 3 show ?thesis
      by (simp add: mapHeader_def dispatch_def readMap_def readSize_def rounds_num)
  qed
qed

section \<open>The decoder\<close>

lemma rbind_Ok: "rbind m f = Ok y \<longleftrightarrow> (\<exists>x. m = Ok x \<and> f x = Ok y)"
  by (cases m) simp_all

lemma byte_at_append: "i < length array \<Longrightarrow> byte_at (array @ ex) i = byte_at array i"
  by (simp add: byte_at_def nth_append)

lemma byte_at_Some_lt: "byte_at array i = Some b \<Longrightarrow> i < length array"
  by (simp add: byte_at_def split: if_splits)

lemma byte_num_append: "i < length array \<Longrightarrow> byte_num (array @ ex) i = byte_num array i"
  by (simp add: byte_num_def byte_at_append)

lemma readUInt_loop_snd: "snd (readUInt_loop array k pos v) = pos + k"
  by (induction k arbitrary: pos v) simp_all

lemma readUInt_loop_append:
  "pos + k \<le> length array \<Longrightarrow> readUInt_loop (array @ ex) k pos v = readUInt_loop array k pos v"
  by (induction k arbitrary: pos v) (simp_all add: byte_num_append)

lemma readUInt_snd: "snd (readUInt array k pos) = pos + k"
  by (simp add: readUInt_def readUInt_loop_snd)

lemma readUInt_append:
  "pos + k \<le> length array \<Longrightarrow> readUInt (array @ ex) k pos = readUInt array k pos"
  by (simp add: readUInt_def readUInt_loop_append)

lemma readInt_snd: "snd (readInt array k pos) = pos + 1 + (k - 1)"
  by (simp add: readInt_def readUInt_loop_snd)

lemma readInt_append:
  "pos + 1 + (k - 1) \<le> length array \<Longrightarrow> readInt (array @ ex) k pos = readInt array k pos"
  by (simp add: readInt_def readUInt_loop_append byte_at_append)

lemma readSize_stable:
  assumes "readSize array sz ls pos = (sz', pos')"
  shows "pos \<le> pos'" and "pos' \<le> length array \<Longrightarrow> readSize (array @ ex) sz ls pos = (sz', pos')"
proof -
  show "pos \<le> pos'"
    using assms readUInt_snd[of array ls pos] by (auto simp: readSize_def split: if_splits)
  assume "pos' \<le> length array"
  then show "readSize (array @ ex) sz ls pos = (sz', pos')"
    using assms readUInt_snd[of array ls pos]
    by (auto simp: readSize_def readUInt_append split: if_splits)
qed

lemma readBin_stable:
  assumes "readBin array sz ls pos = (b, Some q)"
  shows "pos \<le> q" and "q \<le> length array \<Longrightarrow> readBin (array @ ex) sz ls pos = (b, Some q)"
proof -
  obtain sz' pos' where s: "readSize array sz ls pos = (sz', pos')"
    by (cases "readSize array sz ls pos")
  from assms s obtain n where n: "size_nat sz' = Some n" "q = pos' + n" "b = take n (drop pos' array)"
    by (auto simp: readBin_def split: option.splits)
  show "pos \<le> q"
    using readSize_stable(1)[OF s] n by simp
  assume q: "q \<le> length array"
  then have "pos' \<le> length array" using n by simp
  from readSize_stable(2)[OF s this] n q show "readBin (array @ ex) sz ls pos = (b, Some q)"
    by (simp add: readBin_def)
qed

lemma decodeUtf8_step_append:
  "stop \<le> length array \<Longrightarrow> i < stop \<Longrightarrow>
   decodeUtf8_step (array @ ex) i stop = decodeUtf8_step array i stop"
  by (auto simp: decodeUtf8_step_def cont_def byte_at_append split: option.splits)

lemma decodeUtf8_loop_append:
  "stop \<le> length array \<Longrightarrow>
   decodeUtf8_loop (array @ ex) i stop str = decodeUtf8_loop array i stop str"
proof (induction array i stop str rule: decodeUtf8_loop.induct)
  case (1 bytes i stop str)
  show ?case
  proof (cases "i < stop")
    case False
    then show ?thesis by (simp add: decodeUtf8_loop.simps[of _ i stop])
  next
    case True
    have e: "decodeUtf8_step (bytes @ ex) i stop = decodeUtf8_step bytes i stop"
      using decodeUtf8_step_append[OF 1(2) True] .
    show ?thesis
    proof (cases "decodeUtf8_step bytes i stop")
      case (Ok x)
      then obtain s i' where x: "x = (s, i')" by (cases x)
      from 1(1)[OF True Ok x[symmetric] 1(2)] Ok x e True show ?thesis
        by (simp add: decodeUtf8_loop.simps[of _ i stop])
    qed (use e True in \<open>simp_all add: decodeUtf8_loop.simps[of _ i stop]\<close>)
  qed
qed

lemma readStr_stable:
  assumes "readStr array sz ls pos = Ok (v, Some q)"
  shows "pos \<le> q" and "q \<le> length array \<Longrightarrow> readStr (array @ ex) sz ls pos = Ok (v, Some q)"
proof -
  obtain sz' pos' where s: "readSize array sz ls pos = (sz', pos')"
    by (cases "readSize array sz ls pos")
  from assms s obtain n str where n: "size_nat sz' = Some n" "q = pos' + n"
      "decodeUtf8 array pos' n = Ok str" "v = Str str"
    by (auto simp: readStr_def rbind_Ok split: option.splits)
  show "pos \<le> q"
    using readSize_stable(1)[OF s] n by simp
  assume q: "q \<le> length array"
  then have "pos' \<le> length array" using n by simp
  moreover have "decodeUtf8 (array @ ex) pos' n = Ok str"
    using n q by (simp add: decodeUtf8_def decodeUtf8_loop_append add.commute)
  ultimately show "readStr (array @ ex) sz ls pos = Ok (v, Some q)"
    using readSize_stable(2)[OF s] n by (simp add: readStr_def)
qed

lemma readFloat_stable:
  assumes "readFloat array n pos = Ok (v, Some q)"
  shows "pos \<le> q" and "readFloat (array @ ex) n pos = Ok (v, Some q)"
  using assms by (auto simp: readFloat_def split: if_splits)

lemma readExtDate_stable:
  assumes "readExtDate array data pos = Ok (v, Some q)"
  shows "\<exists>p. pos = Some p \<and> p \<le> q"
    and "q \<le> length array \<Longrightarrow> readExtDate (array @ ex) data pos = Ok (v, Some q)"
proof -
  show "\<exists>p. pos = Some p \<and> p \<le> q"
  proof (cases pos)
    case None
    with assms show ?thesis
      by (auto simp: readExtDate_def Let_def newDate_def split: if_splits)
  next
    case (Some p)
    show ?thesis
    proof (cases "length data = 12")
      case False
      with assms Some show ?thesis
        by (auto simp: readExtDate_def Let_def split: if_splits)
    next
      case True
      obtain sec pos' where r: "readInt array 8 (p - 8) = (sec, pos')"
        by (cases "readInt array 8 (p - 8)")
      with assms True Some have "pos' = q"
        by (simp add: readExtDate_def Let_def)
      with r readInt_snd[of array 8 "p - 8"] Some show ?thesis
        by simp
    qed
  qed
  assume q: "q \<le> length array"
  show "readExtDate (array @ ex) data pos = Ok (v, Some q)"
  proof (cases "length data = 12")
    case False
    then have "readExtDate (array @ ex) data pos = readExtDate array data pos"
      by (simp add: readExtDate_def)
    with assms show ?thesis by simp
  next
    case True
    with assms obtain p where p: "pos = Some p"
      by (cases pos) (auto simp: readExtDate_def newDate_def)
    obtain sec pos' where r: "readInt array 8 (p - 8) = (sec, pos')"
      by (cases "readInt array 8 (p - 8)")
    with assms True p have "pos' = q"
      by (simp add: readExtDate_def Let_def)
    with r readInt_snd[of array 8 "p - 8"] q have "p - 8 + 1 + (8 - 1) \<le> length array"
      by simp
    from readInt_append[OF this] assms True p r show ?thesis
      by (simp add: readExtDate_def Let_def)
  qed
qed

lemma readExt_stable:
  assumes "readExt array sz ls pos = Ok (v, Some q)"
  shows "pos \<le> q" and "q \<le> length array \<Longrightarrow> readExt (array @ ex) sz ls pos = Ok (v, Some q)"
proof -
  obtain sz' p1 where s: "readSize array sz ls pos = (sz', p1)"
    by (cases "readSize array sz ls pos")
  obtain ty p2 where t: "readUInt array 1 p1 = (ty, p2)"
    by (cases "readUInt array 1 p1")
  then have p2: "p2 = p1 + 1"
    using readUInt_snd[of array 1 p1] by simp
  obtain data p3 where b: "readBin array sz' 0 p2 = (data, p3)"
    by (cases "readBin array sz' 0 p2")
  have "\<exists>p. p3 = Some p \<and> p \<le> q"
  proof (cases "js_eq ty (Fin 255)")
    case True
    with assms s t b have "readExtDate array data p3 = Ok (v, Some q)"
      by (simp add: readExt_def)
    from readExtDate_stable(1)[OF this] show ?thesis .
  next
    case False
    with assms s t b show ?thesis by (simp add: readExt_def)
  qed
  then obtain p where p3: "p3 = Some p" "p \<le> q" by blast
  have m: "pos \<le> p1" "p2 \<le> p"
    using readSize_stable(1)[OF s] readBin_stable(1)[OF b[unfolded p3(1)]] by simp_all
  show "pos \<le> q"
    using m p2 p3 by simp
  assume q: "q \<le> length array"
  then have le: "p1 \<le> length array" "p1 + 1 \<le> length array" "p \<le> length array"
    using m p2 p3 by simp_all
  have s': "readSize (array @ ex) sz ls pos = (sz', p1)"
    using readSize_stable(2)[OF s le(1)] .
  have t': "readUInt (array @ ex) 1 p1 = (ty, p2)"
    using readUInt_append[OF le(2)] t by simp
  have b': "readBin (array @ ex) sz' 0 p2 = (data, p3)"
    using readBin_stable(2)[OF b[unfolded p3(1)] le(3)] p3 by simp
  show "readExt (array @ ex) sz ls pos = Ok (v, Some q)"
  proof (cases "js_eq ty (Fin 255)")
    case True
    with assms s t b have "readExtDate array data p3 = Ok (v, Some q)"
      by (simp add: readExt_def)
    from readExtDate_stable(2)[OF this q] True s' t' b' show ?thesis
      by (simp add: readExt_def)
  next
    case False
    with assms s t b s' t' b' show ?thesis by (simp add: readExt_def)
  qed
qed

lemma stable_const: "pos \<le> q \<Longrightarrow> stable len pos (Return (Ok (v, Some q))) (Return (Ok (v, Some q)))"
  by simp

lemma stable_Return:
  assumes "\<And>v q. r = Ok (v, Some q) \<Longrightarrow> pos \<le> q \<and> (q \<le> len \<longrightarrow> r' = Ok (v, Some q))"
  shows "stable len pos (Return r) (Return r')"
proof (cases r)
  case (Ok x)
  then show ?thesis using assms by (cases x; cases "snd x") auto
qed simp_all

lemma stable_readStr:
  "stable (length array) pos (Return (readStr array sz ls pos)) (Return (readStr (array @ ex) sz ls pos))"
  by (rule stable_Return) (auto dest: readStr_stable)

lemma stable_readExt:
  "stable (length array) pos (Return (readExt array sz ls pos)) (Return (readExt (array @ ex) sz ls pos))"
  by (rule stable_Return) (auto dest: readExt_stable)

lemma stable_readFloat:
  "stable (length array) pos (Return (readFloat array n pos)) (Return (readFloat (array @ ex) n pos))"
  by (rule stable_Return) (auto dest: readFloat_stable)

lemma stable_readBin:
  "stable (length array) pos (returnBin (readBin array sz ls pos)) (returnBin (readBin (array @ ex) sz ls pos))"
  unfolding returnBin_def
proof (rule stable_Return, intro conjI impI)
  fix v q assume a: "Ok (Bytes (fst (readBin array sz ls pos)), snd (readBin array sz ls pos)) = Ok (v, Some q)"
  then have r: "readBin array sz ls pos = (fst (readBin array sz ls pos), Some q)"
    by (cases "readBin array sz ls pos") simp
  from readBin_stable(1)[OF r] show "pos \<le> q" .
  assume "q \<le> length array"
  from readBin_stable(2)[OF r this] a
  show "Ok (Bytes (fst (readBin (array @ ex) sz ls pos)), snd (readBin (array @ ex) sz ls pos)) = Ok (v, Some q)"
    by simp
qed

lemma stable_readUInt:
  "stable (length array) pos (returnNum (readUInt array n pos)) (returnNum (readUInt (array @ ex) n pos))"
  unfolding returnNum_def
  using readUInt_snd[of array n pos] readUInt_snd[of "array @ ex" n pos] readUInt_append[of pos n array ex]
  by (auto simp: )

lemma stable_readInt:
  "stable (length array) pos (returnNum (readInt array n pos)) (returnNum (readInt (array @ ex) n pos))"
  unfolding returnNum_def
  using readInt_snd[of array n pos] readInt_snd[of "array @ ex" n pos] readInt_append[of pos n array ex]
  by (auto simp: )

lemma stable_readMap:
  "stable (length array) pos (readMap array sz ls pos) (readMap (array @ ex) sz ls pos)"
proof -
  obtain sz' p1 where s: "readSize array sz ls pos = (sz', p1)"
    by (cases "readSize array sz ls pos")
  from readSize_stable[OF s] s show ?thesis
    by (auto simp: readMap_def)
qed

lemma stable_readArray:
  "stable (length array) pos (readArray array sz ls pos) (readArray (array @ ex) sz ls pos)"
proof -
  obtain sz' p1 where s: "readSize array sz ls pos = (sz', p1)"
    by (cases "readSize array sz ls pos")
  from readSize_stable[OF s] s show ?thesis
    by (auto simp: readArray_def)
qed

lemmas stable_intros = stable_readStr stable_readExt stable_readFloat stable_readBin
  stable_readUInt stable_readInt stable_readMap stable_readArray

lemma stable_dispatch:
  "stable (length array) pos (dispatch array byte pos) (dispatch (array @ ex) byte pos)"
  unfolding dispatch_def
  by (simp add: stable_intros)

lemma loops_stable:
  assumes R: "\<And>pos v q. read host d array pos = Ok (v, Some q) \<Longrightarrow>
                (\<exists>p. pos = Some p \<and> p < q) \<and>
                (q \<le> length array \<longrightarrow> read host d (array @ ex) pos = Ok (v, Some q))"
  shows "readMap_loop host d array n pos data = Ok (v, Some q) \<Longrightarrow>
           (\<exists>p. pos = Some p \<and> p \<le> q) \<and>
           (q \<le> length array \<longrightarrow> readMap_loop host d (array @ ex) n pos data = Ok (v, Some q))"
    and "readArray_loop host d array n pos xs = Ok (v, Some q) \<Longrightarrow>
           (\<exists>p. pos = Some p \<and> p \<le> q) \<and>
           (q \<le> length array \<longrightarrow> readArray_loop host d (array @ ex) n pos xs = Ok (v, Some q))"
proof (induction n arbitrary: pos data xs)
  case 0
  { case 1 then show ?case by simp }
  { case 2 then show ?case by simp }
next
  case (Suc n)
  {
    case 1
    from 1 obtain key pos1 v2 pos2 k data' where
      r1: "read host d array pos = Ok (key, pos1)" and
      r2: "read host d array pos1 = Ok (v2, pos2)" and
      k: "ToPropertyKey host key = Ok k" and
      o: "obj_set data k v2 = Ok data'" and
      l: "readMap_loop host d array n pos2 data' = Ok (v, Some q)"
      by (auto simp: rbind_Ok)
    from Suc.IH(1)[OF l] obtain p2 where p2: "pos2 = Some p2" "p2 \<le> q"
      and l': "q \<le> length array \<longrightarrow> readMap_loop host d (array @ ex) n pos2 data' = Ok (v, Some q)"
      by blast
    from R[OF r2[unfolded p2(1)]] obtain p1 where p1: "pos1 = Some p1" "p1 < p2"
      and r2': "p2 \<le> length array \<longrightarrow> read host d (array @ ex) pos1 = Ok (v2, Some p2)"
      by blast
    from R[OF r1[unfolded p1(1)]] obtain p where p: "pos = Some p" "p < p1"
      and r1': "p1 \<le> length array \<longrightarrow> read host d (array @ ex) pos = Ok (key, Some p1)"
      by blast
    show ?case
      using p p1 p2 l' r2' r1' k o by (auto simp: rbind_Ok)
  }
  {
    case 2
    from 2 obtain x pos1 where
      r1: "read host d array pos = Ok (x, pos1)" and
      l: "readArray_loop host d array n pos1 (xs @ [x]) = Ok (v, Some q)"
      by (auto simp: rbind_Ok)
    from Suc.IH(2)[OF l] obtain p1 where p1: "pos1 = Some p1" "p1 \<le> q"
      and l': "q \<le> length array \<longrightarrow> readArray_loop host d (array @ ex) n pos1 (xs @ [x]) = Ok (v, Some q)"
      by blast
    from R[OF r1[unfolded p1(1)]] obtain p where p: "pos = Some p" "p < p1"
      and r1': "p1 \<le> length array \<longrightarrow> read host d (array @ ex) pos = Ok (x, Some p1)"
      by blast
    show ?case
      using p p1 l' r1' by (auto simp: rbind_Ok)
  }
qed

lemma read_stable:
  "read host d array pos = Ok (v, Some q) \<Longrightarrow>
     (\<exists>p. pos = Some p \<and> p < q) \<and>
     (q \<le> length array \<longrightarrow> read host d (array @ ex) pos = Ok (v, Some q))"
proof (induction d arbitrary: pos v q)
  case 0
  then show ?case by simp
next
  case (Suc d)
  from Suc.prems obtain p where p: "pos = Some p"
    by (cases pos) auto
  from Suc.prems p obtain byte where b: "byte_at array p = Some byte"
    by (cases "byte_at array p") auto
  then have lt: "p < length array" by (rule byte_at_Some_lt)
  have b': "byte_at (array @ ex) p = Some byte"
    using byte_at_append[OF lt] b by simp
  note st = stable_dispatch[of array "p + 1" byte ex]
  show ?case
  proof (cases "dispatch array byte (p + 1)")
    case (Return r)
    with Suc.prems p b have r: "r = Ok (v, Some q)" by simp
    with st Return have "p + 1 \<le> q"
      and "q \<le> length array \<longrightarrow> dispatch (array @ ex) byte (p + 1) = Return (Ok (v, Some q))"
      by (auto split: if_splits)
    with p b' show ?thesis by auto
  next
    case (ReadMap n pos')
    with Suc.prems p b have l: "readMap_loop host d array n (Some pos') (None, []) = Ok (v, Some q)"
      by simp
    from loops_stable(1)[of host d array ex, OF Suc.IH l] have le: "pos' \<le> q"
      and l': "q \<le> length array \<longrightarrow> readMap_loop host d (array @ ex) n (Some pos') (None, []) = Ok (v, Some q)"
      by auto
    from st ReadMap have "p + 1 \<le> pos'"
      and "pos' \<le> length array \<longrightarrow> dispatch (array @ ex) byte (p + 1) = ReadMap n pos'"
      by (auto split: if_splits)
    with p b' le l' show ?thesis by auto
  next
    case (ReadArray n pos')
    with Suc.prems p b have l: "readArray_loop host d array n (Some pos') [] = Ok (v, Some q)"
      by simp
    from loops_stable(2)[of host d array ex, OF Suc.IH l] have le: "pos' \<le> q"
      and l': "q \<le> length array \<longrightarrow> readArray_loop host d (array @ ex) n (Some pos') [] = Ok (v, Some q)"
      by auto
    from st ReadArray have "p + 1 \<le> pos'"
      and "pos' \<le> length array \<longrightarrow> dispatch (array @ ex) byte (p + 1) = ReadArray n pos'"
      by (auto split: if_splits)
    with p b' le l' show ?thesis by auto
  qed
qed

text \<open>More fuel does not change a result.\<close>

lemma rbind_fuel:
  assumes "rbind m f = r" "r \<noteq> OutOfFuel"
      and "m \<noteq> OutOfFuel \<Longrightarrow> m' = m"
      and "\<And>x. m = Ok x \<Longrightarrow> f x = r \<Longrightarrow> f' x = r"
  shows "rbind m' f' = r"
  using assms by (cases m) auto

lemma loops_fuel:
  assumes R: "\<And>pos r. read host d array pos = r \<Longrightarrow> r \<noteq> OutOfFuel \<Longrightarrow> read host d' array pos = r"
  shows "readMap_loop host d array n pos data = r \<Longrightarrow> r \<noteq> OutOfFuel \<Longrightarrow>
           readMap_loop host d' array n pos data = r"
    and "readArray_loop host d array n pos xs = r \<Longrightarrow> r \<noteq> OutOfFuel \<Longrightarrow>
           readArray_loop host d' array n pos xs = r"
proof (induction n arbitrary: pos data xs)
  case 0
  { case 1 then show ?case by simp }
  { case 2 then show ?case by simp }
next
  case (Suc n)
  {
    case 1
    from 1(1) have e: "rbind (read host d array pos) (\<lambda>r1.
        rbind (read host d array (snd r1)) (\<lambda>r2.
        rbind (ToPropertyKey host (fst r1)) (\<lambda>k.
        rbind (obj_set data k (fst r2)) (\<lambda>data'.
        readMap_loop host d array n (snd r2) data')))) = r"
      by simp
    have "rbind (read host d' array pos) (\<lambda>r1.
        rbind (read host d' array (snd r1)) (\<lambda>r2.
        rbind (ToPropertyKey host (fst r1)) (\<lambda>k.
        rbind (obj_set data k (fst r2)) (\<lambda>data'.
        readMap_loop host d' array n (snd r2) data')))) = r"
    proof (rule rbind_fuel[OF e 1(2)])
      show "read host d array pos \<noteq> OutOfFuel \<Longrightarrow> read host d' array pos = read host d array pos"
        using R by blast
    next
      fix r1
      assume e1: "rbind (read host d array (snd r1)) (\<lambda>r2.
        rbind (ToPropertyKey host (fst r1)) (\<lambda>k.
        rbind (obj_set data k (fst r2)) (\<lambda>data'.
        readMap_loop host d array n (snd r2) data'))) = r"
      show "rbind (read host d' array (snd r1)) (\<lambda>r2.
        rbind (ToPropertyKey host (fst r1)) (\<lambda>k.
        rbind (obj_set data k (fst r2)) (\<lambda>data'.
        readMap_loop host d' array n (snd r2) data'))) = r"
      proof (rule rbind_fuel[OF e1 1(2)])
        show "read host d array (snd r1) \<noteq> OutOfFuel \<Longrightarrow>
              read host d' array (snd r1) = read host d array (snd r1)"
          using R by blast
      next
        fix r2
        assume e2: "rbind (ToPropertyKey host (fst r1)) (\<lambda>k.
          rbind (obj_set data k (fst r2)) (\<lambda>data'.
          readMap_loop host d array n (snd r2) data')) = r"
        show "rbind (ToPropertyKey host (fst r1)) (\<lambda>k.
          rbind (obj_set data k (fst r2)) (\<lambda>data'.
          readMap_loop host d' array n (snd r2) data')) = r"
        proof (rule rbind_fuel[OF e2 1(2) refl])
          fix k
          assume e3: "rbind (obj_set data k (fst r2)) (\<lambda>data'.
            readMap_loop host d array n (snd r2) data') = r"
          show "rbind (obj_set data k (fst r2)) (\<lambda>data'.
            readMap_loop host d' array n (snd r2) data') = r"
            by (rule rbind_fuel[OF e3 1(2) refl]) (rule Suc.IH(1)[OF _ 1(2)])
        qed
      qed
    qed
    then show ?case by simp
  }
  {
    case 2
    from 2(1) have e: "rbind (read host d array pos) (\<lambda>r.
        readArray_loop host d array n (snd r) (xs @ [fst r])) = r"
      by simp
    have "rbind (read host d' array pos) (\<lambda>r.
        readArray_loop host d' array n (snd r) (xs @ [fst r])) = r"
    proof (rule rbind_fuel[OF e 2(2)])
      show "read host d array pos \<noteq> OutOfFuel \<Longrightarrow> read host d' array pos = read host d array pos"
        using R by blast
    qed (rule Suc.IH(2)[OF _ 2(2)])
    then show ?case by simp
  }
qed

lemma read_fuel:
  "read host d array pos = r \<Longrightarrow> r \<noteq> OutOfFuel \<Longrightarrow> d \<le> d' \<Longrightarrow> read host d' array pos = r"
proof (induction d arbitrary: pos r d')
  case 0
  then show ?case by simp
next
  case (Suc d)
  from Suc.prems(3) obtain e where e: "d' = Suc e" "d \<le> e"
    by (cases d') auto
  have R: "\<And>pos r. read host d array pos = r \<Longrightarrow> r \<noteq> OutOfFuel \<Longrightarrow> read host e array pos = r"
    using Suc.IH e(2) by blast
  show ?case
  proof (cases pos)
    case None
    with Suc.prems e show ?thesis by simp
  next
    case (Some p)
    show ?thesis
    proof (cases "byte_at array p")
      case None
      with Suc.prems e Some show ?thesis by simp
    next
      case b: (Some byte)
      show ?thesis
      proof (cases "dispatch array byte (p + 1)")
        case (Return x)
        with Suc.prems e Some b show ?thesis by simp
      next
        case (ReadMap n pos')
        with Suc.prems Some b have "readMap_loop host d array n (Some pos') (None, []) = r" by simp
        from loops_fuel(1)[of host d array e, OF R this Suc.prems(2)] ReadMap Some b e
        show ?thesis by simp
      next
        case (ReadArray n pos')
        with Suc.prems Some b have "readArray_loop host d array n (Some pos') [] = r" by simp
        from loops_fuel(2)[of host d array e, OF R this Suc.prems(2)] ReadArray Some b e
        show ?thesis by simp
      qed
    qed
  qed
qed

lemma readArray_loop_unfold:
  "0 < n \<Longrightarrow> readArray_loop host d array n pos xs =
     rbind (read host d array pos) (\<lambda>r. readArray_loop host d array (n - 1) (snd r) (xs @ [fst r]))"
  by (cases n) simp_all

lemma readMap_loop_unfold:
  "0 < n \<Longrightarrow> readMap_loop host d array n pos data =
     rbind (read host d array pos) (\<lambda>r1.
     rbind (read host d array (snd r1)) (\<lambda>r2.
     rbind (ToPropertyKey host (fst r1)) (\<lambda>k.
     rbind (obj_set data k (fst r2)) (\<lambda>data'.
     readMap_loop host d array (n - 1) (snd r2) data'))))"
  by (cases n) simp_all

lemma readPairs_unfold:
  "0 < n \<Longrightarrow> readPairs host d array n pos =
     rbind (read host d array pos) (\<lambda>r1.
     rbind (read host d array (snd r1)) (\<lambda>r2.
     rbind (readPairs host d array (n - 1) (snd r2)) (\<lambda>r.
     Ok ((fst r1, fst r2) # fst r, snd r))))"
  by (cases n) simp_all

lemmas loop_simps = readArray_loop_unfold readMap_loop_unfold

lemma set_insert_index: "set (insert_index i k v es) = insert (k, v) (set es)"
  by (induction es) (auto split: option.splits)

lemma map_of_insert_index:
  "k \<notin> set (map fst es) \<Longrightarrow> map_of (insert_index i k v es) = (map_of es)(k \<mapsto> v)"
proof (induction es)
  case Nil
  show ?case by simp
next
  case (Cons e es)
  then have k: "k \<noteq> fst e" and IH: "map_of (insert_index i k v es) = (map_of es)(k \<mapsto> v)"
    by auto
  obtain a b where e: "e = (a, b)" by (cases e)
  show ?case
    using k IH by (auto simp: e fun_upd_twist split: option.splits)
qed

lemma map_of_replace_other:
  "a \<noteq> k \<Longrightarrow> map_of (map (\<lambda>e. if fst e = k then (k, v) else e) es) a = map_of es a"
  by (induction es) auto

lemma map_of_replace_key:
  "k \<in> set (map fst es) \<Longrightarrow> map_of (map (\<lambda>e. if fst e = k then (k, v) else e) es) k = Some v"
  by (induction es) auto

lemma map_of_replace:
  "k \<in> set (map fst es) \<Longrightarrow>
   map_of (map (\<lambda>e. if fst e = k then (k, v) else e) es) = (map_of es)(k \<mapsto> v)"
  by (auto simp: fun_eq_iff map_of_replace_other map_of_replace_key simp del: set_map)

lemma map_of_define_property: "map_of (define_property k v es) = (map_of es)(k \<mapsto> v)"
proof (cases "k \<in> set (map fst es)")
  case True
  then show ?thesis
    unfolding define_property_def using map_of_replace[of k es v] by simp
next
  case False
  then have "map_of es k = None"
    by (simp add: map_of_eq_None_iff)
  then have "map_of (es @ [(k, v)]) = (map_of es)(k \<mapsto> v)"
    by (auto simp: map_add_def fun_eq_iff split: option.splits)
  with False show ?thesis
    unfolding define_property_def using map_of_insert_index[of k es _ v]
    by (simp split: option.splits)
qed

lemma keys_insert_index: "set (map fst (insert_index i k v es)) = insert k (set (map fst es))"
  using set_insert_index[of i k v es] by (metis fst_conv image_insert set_map)

lemma distinct_insert_index:
  "k \<notin> set (map fst es) \<Longrightarrow> distinct (map fst es) \<Longrightarrow> distinct (map fst (insert_index i k v es))"
proof (induction es)
  case Nil
  show ?case by simp
next
  case (Cons e es)
  then have IH: "distinct (map fst (insert_index i k v es))" and k: "k \<noteq> fst e"
    and e: "fst e \<notin> set (map fst es)" and d: "distinct (map fst es)"
    by auto
  have "fst e \<notin> set (map fst (insert_index i k v es))"
    unfolding keys_insert_index using k e by simp
  with IH k e d Cons.prems show ?case
    by (auto split: option.splits)
qed

lemma distinct_define_property:
  "distinct (map fst es) \<Longrightarrow> distinct (map fst (define_property k v es))"
proof (cases "k \<in> set (map fst es)")
  case True
  assume d: "distinct (map fst es)"
  have "map fst (map (\<lambda>e. if fst e = k then (k, v) else e) es) = map fst es"
    by (induction es) auto
  with d have "distinct (map fst (map (\<lambda>e. if fst e = k then (k, v) else e) es))"
    by (simp only:)
  with True show ?thesis
    unfolding define_property_def by simp
next
  case False
  assume "distinct (map fst es)"
  with False show ?thesis
    unfolding define_property_def using distinct_insert_index[of k es _ v]
    by (auto split: option.splits)
qed

lemma obj_set_plain:
  "k \<noteq> jstr ''__proto__'' \<Longrightarrow> obj_set (None, es) k v = Ok (None, define_property k v es)"
  by (simp add: obj_set_def object_prototype_def)

lemma obj_set_proto:
  "jstr ''__proto__'' \<notin> set (map fst es) \<Longrightarrow>
   obj_set (None, es) (jstr ''__proto__'') v
     = Ok (if is_object v \<or> v = Null then (Some v, es) else (None, es))"
  by (simp add: obj_set_def object_prototype_def)

lemma readPairs_Suc:
  assumes "readPairs host d array (Suc n) pos = Ok (ps, q)"
  obtains key p1 v p2 ps' where "read host d array pos = Ok (key, p1)"
    and "read host d array p1 = Ok (v, p2)" and "readPairs host d array n p2 = Ok (ps', q)"
    and "ps = (key, v) # ps'"
proof -
  from assms obtain r1 r2 r where r1: "read host d array pos = Ok r1"
    and r2: "read host d array (snd r1) = Ok r2"
    and r: "readPairs host d array n (snd r2) = Ok r"
    and e: "Ok ((fst r1, fst r2) # fst r, snd r) = Ok (ps, q)"
    by (auto simp: rbind_Ok)
  show thesis
  proof (rule that[of "fst r1" "snd r1" "fst r2" "snd r2" "fst r"])
    show "read host d array pos = Ok (fst r1, snd r1)" using r1 by simp
    show "read host d array (snd r1) = Ok (fst r2, snd r2)" using r2 by simp
    show "readPairs host d array n (snd r2) = Ok (fst r, q)" using r e by (cases r) simp
    show "ps = (fst r1, fst r2) # fst r" using e by simp
  qed
qed

lemma readMap_loop_stores:
  assumes "readPairs host d array n pos = Ok (ps, q)"
    and "list_all2 (\<lambda>key k. ToPropertyKey host key = Ok k) (map fst ps) ks"
    and "jstr ''__proto__'' \<notin> set ks"
    and "distinct (map fst es0)"
  shows "\<exists>es. readMap_loop host d array n pos (None, es0) = Ok (Obj es, q)
              \<and> map_of es = map_of es0 ++ map_of (rev (zip ks (map snd ps)))
              \<and> distinct (map fst es)"
  using assms
proof (induction n arbitrary: pos ps ks es0)
  case 0
  then show ?case by (auto simp: object_value_def)
next
  case (Suc n)
  from readPairs_Suc[OF Suc.prems(1)] obtain key p1 v p2 ps'
    where r1: "read host d array pos = Ok (key, p1)" and r2: "read host d array p1 = Ok (v, p2)"
      and rp: "readPairs host d array n p2 = Ok (ps', q)" and ps: "ps = (key, v) # ps'"
    by blast
  from Suc.prems(2) obtain k ks' where ks: "ks = k # ks'" and k: "ToPropertyKey host key = Ok k"
    and l: "list_all2 (\<lambda>key k. ToPropertyKey host key = Ok k) (map fst ps') ks'"
    by (auto simp: ps list_all2_Cons1)
  from Suc.prems(3) have np: "k \<noteq> jstr ''__proto__''" and np': "jstr ''__proto__'' \<notin> set ks'"
    by (auto simp: ks)
  from Suc.IH[OF rp l np' distinct_define_property[OF Suc.prems(4), of k v]]
  obtain es where a: "readMap_loop host d array n p2 (None, define_property k v es0) = Ok (Obj es, q)"
    and b: "map_of es = map_of (define_property k v es0) ++ map_of (rev (zip ks' (map snd ps')))"
    and c: "distinct (map fst es)"
    by blast
  have "readMap_loop host d array (Suc n) pos (None, es0) = Ok (Obj es, q)"
    using r1 r2 k a by (simp add: obj_set_plain[OF np])
  moreover have "map_of es = map_of es0 ++ map_of (rev (zip ks (map snd ps)))"
    unfolding b map_of_define_property by (simp add: ks ps)
  ultimately show ?case using c by blast
qed

text \<open>
  An entry whose key converts to \<^verbatim>\<open>__proto__\<close> is never stored in the object that \<^verbatim>\<open>{}\<close>
  created: whatever \<^verbatim>\<open>read\<close> returns as a plain object has no such key.
\<close>

lemma keys_define_property:
  "set (map fst (define_property k v es)) = insert k (set (map fst es))"
  using arg_cong[OF map_of_define_property[of k v es], of dom]
  by (simp add: dom_map_of_conv_image_fst)

lemma obj_set_keeps_prototype:
  "obj_set (Some p, es) k v = Ok data' \<Longrightarrow> fst data' \<noteq> None"
  by (auto simp: obj_set_def Let_def split: if_splits inherited.splits)

lemma readMap_loop_replaced_prototype:
  "readMap_loop host d array n pos (Some p, es) = Ok (v, q) \<Longrightarrow> \<exists>p' es'. v = ObjP p' es'"
proof (induction n arbitrary: pos p es)
  case 0
  then show ?case by (auto simp: object_value_def)
next
  case (Suc n)
  from Suc.prems obtain r1 r2 k data' where
    o: "obj_set (Some p, es) k (fst r2) = Ok data'" and
    l: "readMap_loop host d array n (snd r2) data' = Ok (v, q)"
    by (auto simp: rbind_Ok)
  from obj_set_keeps_prototype[OF o] obtain p' es' where "data' = (Some p', es')"
    by (cases data') auto
  with l Suc.IH show ?case by blast
qed

lemma readMap_loop_no_proto_key:
  "readMap_loop host d array n pos (None, es) = Ok (Obj es', q) \<Longrightarrow>
   jstr ''__proto__'' \<notin> set (map fst es) \<Longrightarrow> jstr ''__proto__'' \<notin> set (map fst es')"
proof (induction n arbitrary: pos es)
  case 0
  then show ?case by (auto simp: object_value_def)
next
  case (Suc n)
  from Suc.prems(1) obtain r1 r2 k data' where
    o: "obj_set (None, es) k (fst r2) = Ok data'" and
    l: "readMap_loop host d array n (snd r2) data' = Ok (Obj es', q)"
    by (auto simp: rbind_Ok)
  show ?case
  proof (cases "k = jstr ''__proto__''")
    case True
    with o Suc.prems(2) have d: "data' = (if is_object (fst r2) \<or> fst r2 = Null then (Some (fst r2), es) else (None, es))"
      using obj_set_proto[of es "fst r2"] by simp
    show ?thesis
    proof (cases "is_object (fst r2) \<or> fst r2 = Null")
      case True
      with d l readMap_loop_replaced_prototype[of host d array n "snd r2" "fst r2" es "Obj es'" q]
      show ?thesis by auto
    next
      case False
      with d l Suc.IH[of "snd r2" es] Suc.prems(2) show ?thesis by auto
    qed
  next
    case False
    then have "data' = (None, define_property k (fst r2) es)"
      using o obj_set_plain[of k es "fst r2"] by simp
    moreover have "jstr ''__proto__'' \<notin> set (map fst (define_property k (fst r2) es))"
      using False Suc.prems(2) unfolding keys_define_property by simp
    ultimately show ?thesis
      using l Suc.IH by blast
  qed
qed

lemma decoded_object_has_no_proto_key:
  assumes "read host d array pos = Ok (Obj es, q)"
  shows "jstr ''__proto__'' \<notin> set (map fst es)"
proof (cases d)
  case 0
  with assms show ?thesis by simp
next
  case (Suc d')
  with assms obtain p byte where p: "pos = Some p" and b: "byte_at array p = Some byte"
    by (cases pos) (auto split: option.splits)
  show ?thesis
  proof (cases "dispatch array byte (p + 1)")
    case (Return r)
    with assms Suc p b have r: "r = Ok (Obj es, q)" by simp
    have "fst ` set es \<subseteq> {jstr ''type'', jstr ''data''}"
      using Return r
      by (auto simp: dispatch_def returnBin_def returnNum_def readMap_def readArray_def readStr_def
          readExt_def readExtDate_def readFloat_def newDate_def rbind_Ok Let_def
          split: if_splits prod.splits option.splits)
    then show ?thesis by (auto simp: jstr_def)
  next
    case (ReadMap n pos')
    with assms Suc p b have "readMap_loop host d' array n (Some pos') (None, []) = Ok (Obj es, q)"
      by simp
    from readMap_loop_no_proto_key[OF this] show ?thesis by simp
  next
    case (ReadArray n pos')
    with assms Suc p b have l: "readArray_loop host d' array n (Some pos') [] = Ok (Obj es, q)"
      by simp
    have "readArray_loop host d' array n pos0 xs = Ok (v, q') \<Longrightarrow> \<exists>ys. v = Arr ys" for n pos0 xs v q'
      by (induction n arbitrary: pos0 xs) (auto simp: rbind_Ok)
    from this[OF l] show ?thesis by simp
  qed
qed

lemma map_tag_dispatch:
  "(0x80 \<le> byte \<and> byte \<le> 0x8f) \<or> byte = 0xde \<or> byte = 0xdf \<Longrightarrow>
   \<exists>n pos'. dispatch array byte pos = ReadMap n pos'"
  by (auto simp: dispatch_def readMap_def split: prod.splits)

lemma ToPropertyKey_integer:
  "\<bar>i\<bar> < 2 ^ 53 \<Longrightarrow> ToPropertyKey host (Num (num i)) = Ok (decimal i)"
proof -
  assume "\<bar>i\<bar> < 2 ^ 53"
  then have "\<bar>(of_int i :: rat)\<bar> < of_int (2 ^ 53)"
    by (simp only: of_int_abs[symmetric] of_int_less_iff)
  then show ?thesis by (simp add: num_def)
qed

section \<open>The decoder never runs out of fuel\<close>

text \<open>
  \<open>deserialize\<close> starts \<open>read\<close> with more fuel than the array has bytes, which is enough:
  the result \<open>OutOfFuel\<close> never comes out of it.
\<close>

lemma fromCodePoint_not_OutOfFuel: "rbind (fromCodePoint c) (\<lambda>s. Ok (s, j)) \<noteq> OutOfFuel"
  by (simp add: fromCodePoint_def)

lemma decodeUtf8_step_not_OutOfFuel: "decodeUtf8_step bytes i stop \<noteq> OutOfFuel"
  by (simp add: decodeUtf8_step_def fromCodePoint_not_OutOfFuel split: option.splits)

lemma decodeUtf8_loop_not_OutOfFuel: "decodeUtf8_loop bytes i stop str \<noteq> OutOfFuel"
proof (induction bytes i stop str rule: decodeUtf8_loop.induct)
  case (1 bytes i stop str)
  show ?case
  proof (cases "i < stop")
    case False
    then show ?thesis by (simp add: decodeUtf8_loop.simps[of _ i stop])
  next
    case True
    show ?thesis
    proof (cases "decodeUtf8_step bytes i stop")
      case (Ok x)
      then obtain s i' where x: "x = (s, i')" by (cases x)
      from 1[OF True Ok x[symmetric]] Ok x True show ?thesis
        by (simp add: decodeUtf8_loop.simps[of _ i stop])
    next
      case OutOfFuel
      then show ?thesis using decodeUtf8_step_not_OutOfFuel by blast
    qed (use True in \<open>simp_all add: decodeUtf8_loop.simps[of _ i stop]\<close>)
  qed
qed

lemma rbind_not_OutOfFuel:
  "m \<noteq> OutOfFuel \<Longrightarrow> (\<And>x. m = Ok x \<Longrightarrow> f x \<noteq> OutOfFuel) \<Longrightarrow> rbind m f \<noteq> OutOfFuel"
  by (cases m) auto

lemma readStr_not_OutOfFuel: "readStr array sz ls pos \<noteq> OutOfFuel"
proof -
  have "rbind (decodeUtf8 array p n) (\<lambda>s. Ok (Str s, Some (p + n))) \<noteq> OutOfFuel" for p n
    by (rule rbind_not_OutOfFuel) (simp_all add: decodeUtf8_def decodeUtf8_loop_not_OutOfFuel)
  then show ?thesis
    by (simp add: readStr_def split: prod.splits option.splits)
qed

lemma readFloat_not_OutOfFuel: "readFloat array n pos \<noteq> OutOfFuel"
  by (simp add: readFloat_def)

lemma readExtDate_not_OutOfFuel: "readExtDate array data pos \<noteq> OutOfFuel"
  by (simp add: readExtDate_def Let_def split: option.splits prod.splits)

lemma readExt_not_OutOfFuel: "readExt array sz ls pos \<noteq> OutOfFuel"
  by (simp add: readExt_def readExtDate_not_OutOfFuel split: prod.splits)

lemma dispatch_not_OutOfFuel: "dispatch array byte pos \<noteq> Return OutOfFuel"
  by (simp add: dispatch_def readMap_def readArray_def returnBin_def returnNum_def
      readStr_not_OutOfFuel readFloat_not_OutOfFuel readExt_not_OutOfFuel split: prod.splits)

lemma Number_toString_not_OutOfFuel:
  "(\<And>v. host v \<noteq> OutOfFuel) \<Longrightarrow> Number_toString host x \<noteq> OutOfFuel"
  by (cases x) auto

lemma rbind_OutOfFuel:
  "rbind m f = OutOfFuel \<longleftrightarrow> m = OutOfFuel \<or> (\<exists>x. m = Ok x \<and> f x = OutOfFuel)"
  by (cases m) auto

lemma ToPropertyKey_elements_not_OutOfFuel:
  "\<forall>v. host v \<noteq> OutOfFuel \<Longrightarrow> ToPropertyKey host key \<noteq> OutOfFuel"
  "\<forall>v. host v \<noteq> OutOfFuel \<Longrightarrow> elements host xs \<noteq> OutOfFuel"
  by (induction host key and host xs rule: ToPropertyKey_elements.induct)
     (auto simp: Number_toString_not_OutOfFuel rbind_OutOfFuel)

lemma ToPropertyKey_not_OutOfFuel:
  "(\<And>v. host v \<noteq> OutOfFuel) \<Longrightarrow> ToPropertyKey host key \<noteq> OutOfFuel"
  by (rule ToPropertyKey_elements_not_OutOfFuel) simp

lemma obj_set_not_OutOfFuel: "obj_set data k v \<noteq> OutOfFuel"
  by (simp add: obj_set_def Let_def split: inherited.splits option.splits)

lemma fuel_ok_next:
  assumes "read host d array pos = Ok r" "fuel_ok (length array) d pos"
  shows "fuel_ok (length array) d (snd r)"
proof (cases "snd r")
  case None
  then show ?thesis by simp
next
  case (Some q)
  with assms(1) have "read host d array pos = Ok (fst r, Some q)" by (cases r) simp
  from read_stable[OF this, of "[]"] assms(2) Some show ?thesis by auto
qed

lemma loops_enough:
  assumes H: "\<And>v. host v \<noteq> OutOfFuel"
      and R: "\<And>pos. fuel_ok (length array) d pos \<Longrightarrow> read host d array pos \<noteq> OutOfFuel"
  shows "fuel_ok (length array) d pos \<Longrightarrow> readMap_loop host d array n pos data \<noteq> OutOfFuel"
    and "fuel_ok (length array) d pos \<Longrightarrow> readArray_loop host d array n pos xs \<noteq> OutOfFuel"
proof (induction n arbitrary: pos data xs)
  case 0
  { case 1 show ?case by simp }
  { case 2 show ?case by simp }
next
  case (Suc n)
  {
    case 1
    show ?case
      unfolding readMap_loop.simps
    proof (intro rbind_not_OutOfFuel)
      show "read host d array pos \<noteq> OutOfFuel" using R[OF 1] .
    next
      fix r1 assume r1: "read host d array pos = Ok r1"
      from fuel_ok_next[OF r1 1] show "read host d array (snd r1) \<noteq> OutOfFuel" by (rule R)
    next
      fix r1 r2 show "ToPropertyKey host (fst r1) \<noteq> OutOfFuel"
        using H by (rule ToPropertyKey_not_OutOfFuel)
    next
      fix r2 k show "obj_set data k (fst r2) \<noteq> OutOfFuel" by (rule obj_set_not_OutOfFuel)
    next
      fix r1 r2 k data'
      assume r1: "read host d array pos = Ok r1" and r2: "read host d array (snd r1) = Ok r2"
      from fuel_ok_next[OF r2 fuel_ok_next[OF r1 1]]
      show "readMap_loop host d array n (snd r2) data' \<noteq> OutOfFuel" by (rule Suc.IH(1))
    qed
  }
  {
    case 2
    show ?case
      unfolding readArray_loop.simps
    proof (intro rbind_not_OutOfFuel)
      show "read host d array pos \<noteq> OutOfFuel" using R[OF 2] .
    next
      fix r1 assume r1: "read host d array pos = Ok r1"
      from fuel_ok_next[OF r1 2]
      show "readArray_loop host d array n (snd r1) (xs @ [fst r1]) \<noteq> OutOfFuel" by (rule Suc.IH(2))
    qed
  }
qed

lemma read_enough:
  assumes H: "\<And>v. host v \<noteq> OutOfFuel"
  shows "0 < d \<Longrightarrow> fuel_ok (length array) d pos \<Longrightarrow> read host d array pos \<noteq> OutOfFuel"
proof (induction d arbitrary: pos)
  case 0
  then show ?case by simp
next
  case (Suc d)
  show ?case
  proof (cases pos)
    case None
    then show ?thesis by simp
  next
    case (Some p)
    show ?thesis
    proof (cases "byte_at array p")
      case None
      with Some show ?thesis by simp
    next
      case b: (Some byte)
      then have lt: "p < length array" by (rule byte_at_Some_lt)
      with Suc.prems(2) Some have d: "0 < d" "length array < d + (p + 1)" by auto
      have R: "\<And>pos. fuel_ok (length array) d pos \<Longrightarrow> read host d array pos \<noteq> OutOfFuel"
        using Suc.IH[OF d(1)] .
      note st = stable_dispatch[of array "p + 1" byte "[]"]
      show ?thesis
      proof (cases "dispatch array byte (p + 1)")
        case (Return r)
        with dispatch_not_OutOfFuel[of array byte "p + 1"] Some b show ?thesis by auto
      next
        case (ReadMap n pos')
        with st have "p + 1 \<le> pos'" by simp
        with d have "fuel_ok (length array) d (Some pos')" by simp
        from loops_enough(1)[of host array d, OF H R this] ReadMap Some b show ?thesis by simp
      next
        case (ReadArray n pos')
        with st have "p + 1 \<le> pos'" by simp
        with d have "fuel_ok (length array) d (Some pos')" by simp
        from loops_enough(2)[of host array d, OF H R this] ReadArray Some b show ?thesis by simp
      qed
    qed
  qed
qed

lemma readMultiple_enough:
  assumes H: "\<And>v. host v \<noteq> OutOfFuel"
  shows "(case pos of Some p \<Rightarrow> length array \<le> k + p | None \<Rightarrow> True) \<Longrightarrow>
         readMultiple k host (Suc (length array)) array pos data \<noteq> OutOfFuel"
proof (induction k arbitrary: pos data)
  case 0
  then show ?case by (cases pos) auto
next
  case (Suc k)
  show ?case
  proof (cases pos)
    case None
    then show ?thesis by simp
  next
    case (Some p)
    show ?thesis
    proof (cases "p < length array")
      case False
      with Some show ?thesis by simp
    next
      case True
      have r: "read host (Suc (length array)) array (Some p) \<noteq> OutOfFuel"
        by (rule read_enough[OF H]) simp_all
      have "rbind (read host (Suc (length array)) array (Some p))
              (\<lambda>r. readMultiple k host (Suc (length array)) array (snd r) (data @ [fst r])) \<noteq> OutOfFuel"
      proof (rule rbind_not_OutOfFuel[OF r])
        fix x assume x: "read host (Suc (length array)) array (Some p) = Ok x"
        have "case snd x of Some q \<Rightarrow> length array \<le> k + q | None \<Rightarrow> True"
        proof (cases "snd x")
          case None then show ?thesis by simp
        next
          case q: (Some q)
          with x have "read host (Suc (length array)) array (Some p) = Ok (fst x, Some q)"
            by (cases x) simp
          from read_stable[OF this, of "[]"] Suc.prems Some q show ?thesis by auto
        qed
        then show "readMultiple k host (Suc (length array)) array (snd x) (data @ [fst x]) \<noteq> OutOfFuel"
          by (rule Suc.IH)
      qed
      with True Some show ?thesis by simp
    qed
  qed
qed

lemma deserialize_not_OutOfFuel:
  assumes "\<And>v. host v \<noteq> OutOfFuel"
  shows "deserialize host array opts \<noteq> OutOfFuel"
proof -
  have r: "read host (Suc (length array)) array (Some 0) \<noteq> OutOfFuel"
    by (rule read_enough[OF assms]) simp_all
  have "readMultiple (length array) host (Suc (length array)) array (Some 0) [] \<noteq> OutOfFuel"
    by (rule readMultiple_enough[OF assms]) simp
  moreover from r have "rbind (read host (Suc (length array)) array (Some 0)) (\<lambda>r. Ok (fst r)) \<noteq> OutOfFuel"
    by (rule rbind_not_OutOfFuel) simp
  ultimately show ?thesis
    by (simp only: deserialize_def split: if_split) simp
qed

section \<open>The tags of the integers\<close>

lemma appendNumber_above_uint64:
  assumes "isInteger x th" "js_gt x (Fin 18446744073709551616)"
  shows "appendNumber x th = [0xcf, 0xff, 0xff, 0xff, 0xff, 0xff, 0xff, 0xff, 0xff]"
  using assms
  by (cases x) (simp_all add: appendNumber_def js_gt_def js_ge_def js_le_def lit_max_uint64 lit_max_int64)

lemma appendNumber_below_int64:
  assumes "isInteger x th" "js_lt x (Fin (- 9223372036854775808))"
  shows "appendNumber x th = [0xd3, 0x80, 0, 0, 0, 0, 0, 0, 0]"
  using assms
  by (cases x) (simp_all add: appendNumber_def js_gt_def js_ge_def js_le_def lit_max_uint64 lit_max_int64)

lemma isInteger_num: "th \<noteq> DoubleHint \<Longrightarrow> th \<noteq> FloatHint \<Longrightarrow> isInteger (num i) th"
  by (simp add: isInteger_def num_def)

lemma integer_tags:
  assumes "th \<noteq> DoubleHint" "th \<noteq> FloatHint"
  shows "hd (appendNumber (num i) th) =
     (if 0 \<le> i \<and> i \<le> 0x7f then word_of_int i
      else if - 0x20 \<le> i \<and> i < 0 then word_of_int i
      else if 0 < i \<and> i \<le> 0xff then 0xcc
      else if - 0x80 \<le> i \<and> i < 0 then 0xd0
      else if 0 < i \<and> i \<le> 0xffff then 0xcd
      else if - 0x8000 \<le> i \<and> i < 0 then 0xd1
      else if 0 < i \<and> i \<le> 0xffffffff then 0xce
      else if - 0x80000000 \<le> i \<and> i < 0 then 0xd2
      else if 0 < i \<and> i \<le> 0x10000000000000000 then 0xd3
      else if - 0x8000000000000000 \<le> i \<and> i < 0 then 0xd3
      else if i < 0 then 0xd3
      else 0xcf)"
proof -
  have c: "js_le (num i) (Fin (of_int k)) = (i \<le> k)" "js_ge (num i) (Fin (of_int k)) = (k \<le> i)"
          "js_lt (num i) (Fin (of_int k)) = (i < k)" "js_gt (num i) (Fin (of_int k)) = (k < i)" for k
    by (auto simp: num_def js_le_def js_ge_def js_gt_def)
  have u: "u8 (num i) = word_of_int i"
    by (simp add: u8_def num_def js_trunc_of_int word_uint_eq_iff uint_word_of_int mod_mod_cancel)
  have c0: "js_le (num i) (Fin 0) = (i \<le> 0)" "js_ge (num i) (Fin 0) = (0 \<le> i)"
           "js_lt (num i) (Fin 0) = (i < 0)" "js_gt (num i) (Fin 0) = (0 < i)"
    using c[of 0] by simp_all
  have cp: "js_le (num i) (Fin (numeral n)) = (i \<le> numeral n)"
           "js_ge (num i) (Fin (numeral n)) = (numeral n \<le> i)"
           "js_lt (num i) (Fin (numeral n)) = (i < numeral n)"
           "js_gt (num i) (Fin (numeral n)) = (numeral n < i)" for n
    using c[of "numeral n"] by simp_all
  have cn: "js_le (num i) (Fin (- numeral n)) = (i \<le> - numeral n)"
           "js_ge (num i) (Fin (- numeral n)) = (- numeral n \<le> i)"
           "js_lt (num i) (Fin (- numeral n)) = (i < - numeral n)"
           "js_gt (num i) (Fin (- numeral n)) = (- numeral n < i)" for n
    using c[of "- numeral n"] by simp_all
  show ?thesis
    using isInteger_num[OF assms, of i]
    by (simp add: appendNumber_def c0 cp cn u lit_max_uint64 lit_max_int64 Let_def)
qed

section \<open>Timestamps of whole seconds\<close>

text \<open>
  A date of \<open>s\<close> whole seconds after the epoch, \<open>s\<close> below \<open>2^32\<close>, is written in the 4-byte
  extension form \<^verbatim>\<open>d6 ff\<close> with the seconds big-endian, and read back as the same date.
\<close>

lemma ToUint32_num: "ToUint32 (num i) = i mod 2 ^ 32"
  by (simp add: num_def js_trunc_of_int)

lemma ToInt32_num: "ToInt32 (num i) = (if 2 ^ 31 \<le> i mod 2 ^ 32 then i mod 2 ^ 32 - 2 ^ 32 else i mod 2 ^ 32)"
  by (simp add: ToInt32_def ToUint32_num Let_def)

lemma u8_num: "u8 (num i) = word_of_int i"
  by (simp add: u8_def ToUint32_num word_uint_eq_iff uint_word_of_int mod_mod_cancel)

lemma u8_ushr_num: "0 \<le> s \<Longrightarrow> s < 2 ^ 32 \<Longrightarrow> u8 (ushr (num s) k) = word_of_int (s div 2 ^ k)"
  by (simp add: ushr_def u8_num ToUint32_num)

lemma ushr_shl_byte:
  assumes "0 \<le> x" "x < 256" "k \<le> 24"
  shows "ushr (shl (num x) k) 0 = num (x * 2 ^ k)"
proof -
  have "(2::int) ^ k \<le> 2 ^ 24" using assms(3) by (intro power_increasing) auto
  then have "x * 2 ^ k \<le> 255 * 2 ^ 24"
    using assms(1,2) by (intro mult_mono) auto
  then have b: "0 \<le> x * 2 ^ k" "x * 2 ^ k < 2 ^ 32"
    using assms(1) by auto
  have x: "ToInt32 (num x) = x"
    using assms by (simp add: ToInt32_num)
  have "ToUint32 (num (ToInt32 (num (x * 2 ^ k)))) = x * 2 ^ k"
    using b by (auto simp: ToInt32_num ToUint32_num)
  then show ?thesis
    by (simp add: ushr_def shl_def x)
qed

lemma num_add_num: "\<bar>a + b\<bar> < 2 ^ 53 \<Longrightarrow> num_add (num a) (num b) = num (a + b)"
  using fl_of_int[of "a + b"] by (simp add: num_def)

lemma num_mul_num: "\<bar>a * numeral c\<bar> < 2 ^ 53 \<Longrightarrow> num_mul (num a) (numeral c) = num (a * numeral c)"
  using fl_of_int[of "a * numeral c"] by (simp add: num_def)

lemma num_div_exact: "\<bar>s\<bar> < 2 ^ 53 \<Longrightarrow> num_div (num (numeral c * s)) (numeral c) = num s"
  using fl_of_int[of s] by (simp add: num_def)

lemma be32_comb:
  "s = 256 * A + d \<Longrightarrow> A = 256 * B + c \<Longrightarrow> B = 256 * C + b \<Longrightarrow>
   C * 16777216 + b * 65536 + c * 256 + d = (s::int)"
  by simp

lemma be32_int:
  assumes "0 \<le> s" "s < 2 ^ 32"
  shows "(s div 2 ^ 24) mod 256 * 2 ^ 24 + (s div 2 ^ 16) mod 256 * 2 ^ 16
           + (s div 2 ^ 8) mod 256 * 2 ^ 8 + s mod 256 = (s::int)"
proof -
  have m1: "(256::int) * 16777216 = 4294967296" and m2: "(256::int) * 65536 = 16777216"
    and m3: "(256::int) * 256 = 65536"
    by simp_all
  have s0: "s mod 4294967296 = s" using assms by simp
  have s1: "s mod (256 * 16777216) = 256 * ((s div 256) mod 16777216) + s mod 256"
    by (rule zmod_zmult2_eq) simp
  have d2: "s div 256 div 256 = s div 65536" by (simp add: zdiv_zmult2_eq[symmetric])
  have d3: "s div 65536 div 256 = s div 16777216" by (simp add: zdiv_zmult2_eq[symmetric])
  have e1: "s = 256 * ((s div 256) mod 16777216) + s mod 256"
    using s0 s1 unfolding m1 by (rule trans[OF sym])
  have "(s div 256) mod (256 * 65536) = 256 * ((s div 256 div 256) mod 65536) + (s div 256) mod 256"
    by (rule zmod_zmult2_eq) simp
  then have e2: "(s div 256) mod 16777216 = 256 * ((s div 65536) mod 65536) + (s div 256) mod 256"
    unfolding d2 m2 .
  have "(s div 65536) mod (256 * 256) = 256 * ((s div 65536 div 256) mod 256) + (s div 65536) mod 256"
    by (rule zmod_zmult2_eq) simp
  then have e3: "(s div 65536) mod 65536 = 256 * ((s div 16777216) mod 256) + (s div 65536) mod 256"
    unfolding d3 m3 .
  have p: "(2::int) ^ 24 = 16777216" "(2::int) ^ 16 = 65536" "(2::int) ^ 8 = 256"
    by simp_all
  show ?thesis
    unfolding p by (rule be32_comb[OF e1 e2 e3])
qed

lemma whole_second_appendDate:
  assumes "0 \<le> s" "s < 2 ^ 32"
  shows "appendDate (Some (1000 * s))
           = [0xd6, 0xff, word_of_int (s div 2 ^ 24), word_of_int (s div 2 ^ 16),
              word_of_int (s div 2 ^ 8), word_of_int s]"
proof -
  have sec: "num_div (getTime (Some (1000 * s))) 1000 = num s"
    using num_div_exact[of s "num.Bit0 (num.Bit0 (num.Bit0 (num.Bit1 (num.Bit0 (num.Bit1 (num.Bit1 (num.Bit1 (num.Bit1 num.One))))))))"] assms
    by (simp add: getTime_def)
  have ms: "getMilliseconds (Some (1000 * s)) = Fin 0"
    by (simp add: getMilliseconds_def num_def)
  have c: "js_ge (num s) (Fin 0)" "js_lt (num s) (Fin 0x100000000)"
    using assms by (auto simp add: num_def js_ge_def js_le_def)
  show ?thesis
    using assms c
    by (simp add: appendDate_def sec ms u8_ushr_num u8_num)
qed

lemma data_at_byte:
  "data_at (word_of_int x # bs) 0 = num (x mod 256)"
  "data_at (b # bs) (Suc i) = data_at bs i"
  by (simp_all add: data_at_def uint_word_of_int)

lemma whole_second_readExtDate:
  assumes "0 \<le> s" "s < 2 ^ 32"
  shows "readExtDate array [word_of_int (s div 2 ^ 24), word_of_int (s div 2 ^ 16),
                            word_of_int (s div 2 ^ 8), word_of_int s] pos
           = Ok (Date (Some (1000 * s)), pos)"
proof -
  define A where "A = (s div 2 ^ 24) mod 256"
  define B where "B = (s div 2 ^ 16) mod 256"
  define C where "C = (s div 2 ^ 8) mod 256"
  define D where "D = s mod 256"
  have bd: "0 \<le> A" "A < 256" "0 \<le> B" "B < 256" "0 \<le> C" "C < 256" "0 \<le> D" "D < 256"
    by (simp_all add: A_def B_def C_def D_def)
  have sum: "A * 2 ^ 24 + B * 2 ^ 16 + C * 2 ^ 8 + D = s"
    unfolding A_def B_def C_def D_def by (rule be32_int[OF assms])
  let ?data = "[word_of_int (s div 2 ^ 24), word_of_int (s div 2 ^ 16),
                word_of_int (s div 2 ^ 8), word_of_int s] :: byte list"
  have at: "data_at ?data 0 = num A" "data_at ?data 1 = num B" "data_at ?data 2 = num C"
           "data_at ?data 3 = num D"
    by (simp_all add: data_at_def uint_word_of_int A_def B_def C_def D_def numeral_3_eq_3 numeral_2_eq_2)
  have sh: "ushr (shl (num A) 24) 0 = num (A * 2 ^ 24)" "ushr (shl (num B) 16) 0 = num (B * 2 ^ 16)"
           "ushr (shl (num C) 8) 0 = num (C * 2 ^ 8)"
    using bd by (simp_all add: ushr_shl_byte)
  have a1: "num_add (num (A * 2 ^ 24)) (num (B * 2 ^ 16)) = num (A * 2 ^ 24 + B * 2 ^ 16)"
    using bd by (intro num_add_num) (simp add: abs_less_iff)
  have a2: "num_add (num (A * 2 ^ 24 + B * 2 ^ 16)) (num (C * 2 ^ 8))
              = num (A * 2 ^ 24 + B * 2 ^ 16 + C * 2 ^ 8)"
    using bd by (intro num_add_num) (simp add: abs_less_iff)
  have a3: "num_add (num (A * 2 ^ 24 + B * 2 ^ 16 + C * 2 ^ 8)) (num D) = num s"
    using num_add_num[of "A * 2 ^ 24 + B * 2 ^ 16 + C * 2 ^ 8" D] assms unfolding sum
    by (simp add: abs_less_iff)
  have be: "be32 ?data 0 = num s"
    unfolding be32_def using at by (simp only: add_0 at sh a1 a2 a3 One_nat_def[symmetric])
  have ml: "num_mul (num s) 1000 = num (s * 1000)"
    using assms by (intro num_mul_num) (simp add: abs_less_iff)
  have "\<bar>s * 1000\<bar> \<le> 8640000000000000"
    using assms by (simp add: abs_le_iff)
  then have "\<bar>of_int (s * 1000) :: rat\<bar> \<le> of_int 8640000000000000"
    unfolding of_int_abs[symmetric] of_int_le_iff .
  then have nd: "newDate (num (s * 1000)) = Date (Some (1000 * s))"
    by (simp add: newDate_def num_def js_trunc_of_int del: of_int_mult)
  have "readExtDate array ?data pos = Ok (newDate (num_mul (be32 ?data 0) 1000), pos)"
    unfolding readExtDate_def by simp
  then show ?thesis
    unfolding be ml nd .
qed

lemma whole_second_roundtrip:
  assumes "0 \<le> s" "s < 2 ^ 32"
  shows "serialize n (Date (Some (1000 * s))) no_options
           = Ok [0xd6, 0xff, word_of_int (s div 2 ^ 24), word_of_int (s div 2 ^ 16),
                 word_of_int (s div 2 ^ 8), word_of_int s]"
    and "deserialize host [0xd6, 0xff, word_of_int (s div 2 ^ 24), word_of_int (s div 2 ^ 16),
                           word_of_int (s div 2 ^ 8), word_of_int s] no_options
           = Ok (Date (Some (1000 * s)))"
proof -
  show "serialize n (Date (Some (1000 * s))) no_options
           = Ok [0xd6, 0xff, word_of_int (s div 2 ^ 24), word_of_int (s div 2 ^ 16),
                 word_of_int (s div 2 ^ 8), word_of_int s]"
    unfolding whole_second_appendDate[OF assms, symmetric]
    by (simp add: no_options_def)
  let ?data = "[word_of_int (s div 2 ^ 24), word_of_int (s div 2 ^ 16),
                word_of_int (s div 2 ^ 8), word_of_int s] :: byte list"
  have "readExt (0xd6 # 0xff # ?data) (Fin 4) 0 1 = readExtDate (0xd6 # 0xff # ?data) ?data (Some 6)"
    by (simp add: readExt_def readSize_def readUInt_def readUInt_loop_unfold byte_num_def
        byte_at_def readBin_def num_simps)
  then have "readExt (0xd6 # 0xff # ?data) (Fin 4) 0 1 = Ok (Date (Some (1000 * s)), Some 6)"
    unfolding whole_second_readExtDate[OF assms] .
  then show "deserialize host (0xd6 # 0xff # ?data) no_options = Ok (Date (Some (1000 * s)))"
    by (simp add: deserialize_def no_options_def byte_at_def dispatch_def)
qed

section \<open>Negative zero\<close>

text \<open>
  Negative zero is an integer for \<^verbatim>\<open>appendNumber\<close> and is written as the fixint \<open>0\<close>; with
  the type hint \<^verbatim>\<open>"double"\<close> its sign bit is written, and read back.
\<close>

lemma negative_zero_encoded:
  "serialize n (Num NegZero) (no_options\<lparr>typeHint := DoubleHint\<rparr>) = Ok [0xcb, 0x80, 0, 0, 0, 0, 0, 0, 0]"
  "serialize n (Num (Fin 0)) (no_options\<lparr>typeHint := DoubleHint\<rparr>) = Ok [0xcb, 0, 0, 0, 0, 0, 0, 0, 0]"
  "serialize n (Num NegZero) no_options = Ok [0x00]"
  by (simp_all add: no_options_def appendNumber_def isInteger_def setFloat64_def be_bytes_def
      js_ge_def js_le_def u8_def upt_rec[of 0] upt_rec[of "Suc _"])

lemma negative_zero_decoded:
  "deserialize host [0xcb, 0x80, 0, 0, 0, 0, 0, 0, 0] no_options = Ok (Num NegZero)"
  "deserialize host [0xca, 0x80, 0, 0, 0] no_options = Ok (Num NegZero)"
  "deserialize host [0xcb, 0, 0, 0, 0, 0, 0, 0, 0] no_options = Ok (Num (Fin 0))"
  by (simp_all add: read_simps getFloat64_def getFloat32_def ieee_value_def be_value_def pow2_def Let_def)

section \<open>The claims\<close>

text \<open>
  C1. Deserializing the bytes of \<open>serialize v\<close> yields \<open>v\<close> again, for every supported
  value \<open>v\<close>. The code does not do this at \<open>v = 2^63\<close>: the branch of \<^verbatim>\<open>appendNumber\<close>
  commented \<^verbatim>\<open>// uint64\<close> writes the tag \<^verbatim>\<open>0xd3\<close> of int64, and \<^verbatim>\<open>read\<close> decodes the nine
  bytes with \<^verbatim>\<open>readInt(8)\<close> as \<open>- 2^63\<close>.
\<close>

theorem roundtrip_fails_at_2_63:
  "serialize n (Num (Fin 9223372036854775808)) no_options
     = Ok [0xd3, 0x80, 0, 0, 0, 0, 0, 0, 0]
   \<and> deserialize host [0xd3, 0x80, 0, 0, 0, 0, 0, 0, 0] no_options
     = Ok (Num (Fin (- 9223372036854775808)))"
  by (simp add: read_simps appendNumber_def isInteger_def num_simps lit_max_uint64 fl_m55 fl_m63)

text \<open>
  C2. A positive integer above \<^verbatim>\<open>0xffffffff\<close> and at most \<^verbatim>\<open>0xffffffffffffffff\<close> is
  encoded with the uint64 tag \<^verbatim>\<open>0xcf\<close>. The code writes the int64 tag \<^verbatim>\<open>0xd3\<close> instead,
  here at \<open>2^32\<close>.
\<close>

theorem uint64_branch_writes_int64_tag:
  "serialize n (Num (Fin 4294967296)) no_options = Ok [0xd3, 0, 0, 0, 1, 0, 0, 0, 0]"
  by (simp add: no_options_def appendNumber_def isInteger_def num_simps lit_max_uint64)

text \<open>
  C3. An integer above the largest unsigned 64-bit integer is encoded as \<^verbatim>\<open>0xcf\<close> and eight
  bytes \<^verbatim>\<open>0xff\<close>. The code does not do this at \<open>2^64\<close>: the literal
  \<^verbatim>\<open>0xffffffffffffffff\<close> is the Number \<open>2^64\<close>, so \<open>2^64\<close> takes the uint64 branch, where
  its high word \<open>2^32\<close> is cut to 32 bits.
\<close>

theorem clamp_misses_2_64:
  "serialize n (Num (Fin 18446744073709551616)) no_options = Ok [0xd3, 0, 0, 0, 0, 0, 0, 0, 0]"
  by (simp add: no_options_def appendNumber_def isInteger_def num_simps lit_max_uint64)

text \<open>
  C4. A timestamp with negative seconds round-trips through the 12-byte extension form. The
  code does not do this for the date 1500 ms before the epoch: \<^verbatim>\<open>appendInt64\<close> is given
  \<open>- 1.5\<close> seconds and writes \<open>- 1\<close>, and the bytes decode to the date 500 ms before the
  epoch.
\<close>

theorem negative_fractional_timestamp_roundtrip:
  "serialize n (Date (Some (- 1500))) no_options
     = Ok [0xc7, 12, 0xff, 0x1d, 0xcd, 0x65, 0, 0xff, 0xff, 0xff, 0xff, 0xff, 0xff, 0xff, 0xff]
   \<and> deserialize host
         [0xc7, 12, 0xff, 0x1d, 0xcd, 0x65, 0, 0xff, 0xff, 0xff, 0xff, 0xff, 0xff, 0xff, 0xff]
         no_options
     = Ok (Date (Some (- 500)))"
  by (simp add: read_simps appendDate_def appendInt64_def getTime_def getMilliseconds_def
      num_simps fl_m3_2 fl_m1_2 fl_tiny)

text \<open>
  C5. A string with an unpaired surrogate is rejected by \<^verbatim>\<open>encodeUtf8\<close>. As the code has
  it: \<^verbatim>\<open>encodeUtf8\<close> throws exactly on the strings in which some high surrogate is not
  immediately followed by a low surrogate, and returns bytes for every other string.
\<close>

theorem encodeUtf8_fails_iff_unpaired_high:
  "if unpaired_high s then encodeUtf8 s = Throw EncodingError else (\<exists>bytes. encodeUtf8 s = Ok bytes)"
proof (induction s rule: length_induct)
  case (1 s)
  show ?case
  proof (cases s)
    case Nil
    then show ?thesis by (simp add: unpaired_high_Nil)
  next
    case (Cons u us)
    have ih_us: "if unpaired_high us then encodeUtf8 us = Throw EncodingError
                 else (\<exists>bytes. encodeUtf8 us = Ok bytes)"
      using 1 Cons by simp
    show ?thesis
    proof (cases "high_surrogate u")
      case False
      then have "\<not> (0xd7ff < unat u \<and> unat u < 0xdc00)"
        by (auto simp: high_surrogate_def)
      with False ih_us Cons show ?thesis
        by (auto simp: unpaired_high_Cons Let_def prepend_Throw prepend_Ok)
    next
      case True
      then have c: "\<not> unat u < 128" "\<not> unat u < 2048" "0xd7ff < unat u" "unat u < 0xdc00"
        by (auto simp: high_surrogate_def)
      show ?thesis
      proof (cases us)
        case Nil
        with True c Cons show ?thesis by (simp add: unpaired_high_Cons)
      next
        case us: (Cons u2 us')
        show ?thesis
        proof (cases "low_surrogate u2")
          case L: False
          then have "unat u2 < 0xdc00 \<or> 0xdfff < unat u2"
            by (auto simp: low_surrogate_def)
          with True c Cons us L show ?thesis by (simp add: unpaired_high_Cons)
        next
          case L: True
          then have r: "\<not> unat u2 < 0xdc00" "\<not> 0xdfff < unat u2"
            by (auto simp: low_surrogate_def)
          have ih: "if unpaired_high us' then encodeUtf8 us' = Throw EncodingError
                    else (\<exists>bytes. encodeUtf8 us' = Ok bytes)"
            using 1 Cons us by simp
          have "unpaired_high s = unpaired_high us'"
            using True L Cons us low_not_high[OF L] by (simp add: unpaired_high_Cons)
          with ih c r Cons us show ?thesis
            by (auto simp: Let_def prepend_Throw prepend_Ok)
        qed
      qed
    qed
  qed
qed

theorem encodeUtf8_fails_iff_unpaired_high_witness:
  "unpaired_high [0x61, 0xd83d] \<and> encodeUtf8 [0x61, 0xd83d] = Throw EncodingError
   \<and> \<not> unpaired_high [0xd83d, 0xde00] \<and> (\<exists>bytes. encodeUtf8 [0xd83d, 0xde00] = Ok bytes)"
  using encodeUtf8_fails_iff_unpaired_high[of "[0x61, 0xd83d]"]
        encodeUtf8_fails_iff_unpaired_high[of "[0xd83d, 0xde00]"]
  by (simp add: unpaired_high_Cons unpaired_high_Nil high_surrogate_def low_surrogate_def)

text \<open>
  A low surrogate that no high surrogate precedes is not rejected: it is encoded in three
  bytes.
\<close>

theorem lone_low_surrogate_is_encoded:
  "encodeUtf8 [0xdc00] = Ok [0xed, 0xb0, 0x80]"
  by (simp add: Let_def)

text \<open>
  C6. A value of an unsupported type is replaced once. Wherever \<^verbatim>\<open>append\<close> meets such a
  value outside a replacement (the value given to \<^verbatim>\<open>serialize\<close>, an element of an array, a
  value of an object): when \<^verbatim>\<open>invalidTypeReplacement\<close> is truthy, the replacement (the
  value, or the result of the function) is appended with \<^verbatim>\<open>isReplacement\<close> set, and a
  replacement that is itself of an unsupported type throws; when it is absent or falsy,
  \<^verbatim>\<open>append\<close> throws.
\<close>

theorem unsupported_replaced_once:
  "unsupported data \<Longrightarrow>
   append opts (Suc n) data False th =
     (if truthy (invalidTypeReplacement opts) then
        (if unsupported (replace (invalidTypeReplacement opts) data) then Throw UnsupportedType
         else append opts n (replace (invalidTypeReplacement opts) data) True th)
      else Throw UnsupportedType)"
  by (cases data) (simp_all add: append_unsupported_replacement)

theorem unsupported_replaced_once_witness:
  "unsupported (BigInt 7)
   \<and> append (no_options\<lparr>invalidTypeReplacement := ReplFunction (\<lambda>v. Str [])\<rparr>) (Suc 0) (BigInt 7) False NoHint
       = Ok [0xa0]
   \<and> serialize (Suc 0) (Arr [BigInt 7]) (no_options\<lparr>invalidTypeReplacement := ReplFunction (\<lambda>v. Str [])\<rparr>)
       = Ok [0x91, 0xa0]"
  using unsupported_replaced_once[of "BigInt 7" "no_options\<lparr>invalidTypeReplacement := ReplFunction (\<lambda>v. Str [])\<rparr>" 0 NoHint]
  by (simp add: no_options_def appendString_def strHeader_def arrayHeader_def)

text \<open>
  The configured replacements \<^verbatim>\<open>0\<close>, \<^verbatim>\<open>null\<close>, \<^verbatim>\<open>""\<close> and \<^verbatim>\<open>false\<close> are falsy: the
  function value is not replaced by them, \<^verbatim>\<open>serialize\<close> throws.
\<close>

theorem falsy_replacement_not_substituted:
  "(\<forall>n. serialize n Function (no_options\<lparr>invalidTypeReplacement := ReplValue (Num (Fin 0))\<rparr>)
          = Throw UnsupportedType)
   \<and> (\<forall>n. serialize n Function (no_options\<lparr>invalidTypeReplacement := ReplValue Null\<rparr>)
          = Throw UnsupportedType)
   \<and> (\<forall>n. serialize n Function (no_options\<lparr>invalidTypeReplacement := ReplValue (Str [])\<rparr>)
          = Throw UnsupportedType)
   \<and> (\<forall>n. serialize n Function (no_options\<lparr>invalidTypeReplacement := ReplValue (Bool False)\<rparr>)
          = Throw UnsupportedType)
   \<and> (\<forall>n. serialize (Suc n) Function (no_options\<lparr>invalidTypeReplacement := ReplValue (Num (Fin 1))\<rparr>)
          = Ok [0x01])"
  by (simp add: no_options_def appendNumber_def isInteger_def num_simps)

text \<open>
  C7. The entries of an object whose value is \<^verbatim>\<open>undefined\<close> are skipped: the bytes are
  those of the object without these entries, and the number of entries that \<^verbatim>\<open>read\<close>
  takes from the header of the bytes is the number of entries whose value is present.
\<close>

theorem absent_entries_skipped:
  assumes "append opts n (Obj es) r th = Ok bytes"
      and "length (filter (\<lambda>e. snd e \<noteq> Undefined) es) < 2 ^ 32"
  shows "append opts n (Obj (filter (\<lambda>e. snd e \<noteq> Undefined) es)) r th = Ok bytes
         \<and> (\<exists>pos. dispatch bytes (unat (hd bytes)) 1
                    = ReadMap (length (filter (\<lambda>e. snd e \<noteq> Undefined) es)) pos)"
proof -
  let ?present = "filter (\<lambda>e. snd e \<noteq> Undefined) es"
  have same: "append opts n (Obj ?present) r th = append opts n (Obj es) r th"
    by (simp add: appendObject_loop_filter)
  from assms(1) obtain body where body: "appendObject_loop opts n es = Ok body"
    and bytes: "bytes = mapHeader (length ?present) @ body"
    by (cases "appendObject_loop opts n es") auto
  have "mapHeader (length ?present) \<noteq> []"
    by (simp add: mapHeader_def)
  then have "hd bytes = hd (mapHeader (length ?present))"
    by (simp add: bytes)
  then have "dispatch bytes (unat (hd bytes)) 1
               = ReadMap (length ?present) (length (mapHeader (length ?present)))"
    using mapHeader_dispatch[OF assms(2), of body] by (simp add: bytes)
  with same assms(1) show ?thesis by auto
qed

theorem absent_entries_skipped_witness:
  "append no_options 0 (Obj [([0x61], Undefined), ([0x62], Num (Fin 1))]) False NoHint = Ok [0x81, 0xa1, 0x62, 1]
   \<and> append no_options 0 (Obj [([0x62], Num (Fin 1))]) False NoHint = Ok [0x81, 0xa1, 0x62, 1]
   \<and> (\<exists>pos. dispatch [0x81, 0xa1, 0x62, 1] 0x81 1 = ReadMap 1 pos)"
proof -
  have a: "append no_options 0 (Obj [([0x61], Undefined), ([0x62], Num (Fin 1))]) False NoHint
             = Ok [0x81, 0xa1, 0x62, 1]"
    by (simp add: mapHeader_def appendString_def strHeader_def appendNumber_def isInteger_def num_simps)
  from absent_entries_skipped[OF a] a show ?thesis by simp
qed

text \<open>
  C8. An array whose first byte is \<^verbatim>\<open>0xc1\<close> is rejected with the error of the reserved
  tag, whatever follows and whatever the options.
\<close>

theorem reserved_tag_fails:
  "deserialize host (0xc1 # rest) opts = Throw InvalidByteCode"
  by (simp add: deserialize_def byte_at_def dispatch_def)

text \<open>
  C9. Without \<^verbatim>\<open>multiple\<close>, \<^verbatim>\<open>deserialize\<close> returns the first value and ignores what
  follows it: when \<^verbatim>\<open>read\<close> on the bytes \<open>bs\<close> returns \<open>v\<close> and stops at a position inside
  \<open>bs\<close>, \<^verbatim>\<open>deserialize\<close> returns \<open>v\<close> on \<open>bs\<close> followed by any further bytes.
\<close>

theorem trailing_bytes_ignored:
  assumes "read host (Suc (length bs)) bs (Some 0) = Ok (v, Some q)"
      and "q \<le> length bs"
      and "\<not> multiple opts"
  shows "deserialize host (bs @ extra) opts = Ok v"
proof -
  from read_stable[OF assms(1), of extra] assms(2)
  have r: "read host (Suc (length bs)) (bs @ extra) (Some 0) = Ok (v, Some q)" and "0 < q"
    by auto
  then have ne: "bs @ extra \<noteq> []" using assms(2) by auto
  have "read host (Suc (length (bs @ extra))) (bs @ extra) (Some 0) = Ok (v, Some q)"
    by (rule read_fuel[OF r]) simp_all
  with ne assms(3) show ?thesis
    by (simp add: deserialize_def)
qed

theorem trailing_bytes_ignored_witness:
  "read (\<lambda>v. Ok []) (Suc (length [0x92 :: byte, 0x01, 0xc3])) [0x92, 0x01, 0xc3] (Some 0)
     = Ok (Arr [Num (Fin 1), Bool True], Some 3)
   \<and> (3 :: nat) \<le> length [0x92 :: byte, 0x01, 0xc3] \<and> \<not> multiple no_options
   \<and> deserialize (\<lambda>v. Ok []) ([0x92, 0x01, 0xc3] @ [0xc1, 0xff]) no_options
     = Ok (Arr [Num (Fin 1), Bool True])"
proof -
  have a: "read (\<lambda>v. Ok []) (Suc (length [0x92 :: byte, 0x01, 0xc3])) [0x92, 0x01, 0xc3] (Some 0)
             = Ok (Arr [Num (Fin 1), Bool True], Some 3)"
    by (simp add: read_simps loop_simps num_simps)
  have b: "(3 :: nat) \<le> length [0x92 :: byte, 0x01, 0xc3]" by simp
  have c: "\<not> multiple no_options" by (simp add: no_options_def)
  from trailing_bytes_ignored[OF a b c, of "[0xc1, 0xff]"] a b c show ?thesis by simp
qed

text \<open>
  C10. The keys of a decoded map are strings (an object has no other keys), and each
  encoded entry is stored under the string conversion of its key. For a map tag followed by
  \<open>n\<close> entries whose keys convert to the strings \<open>ks\<close>, none of them \<^verbatim>\<open>__proto__\<close>,
  \<^verbatim>\<open>read\<close> returns an object that has exactly the keys \<open>ks\<close>, each once, and under each
  key the value of the last entry with that key.
\<close>

theorem decoded_map_entries_stored:
  assumes "byte_at array p = Some byte"
    and "dispatch array byte (p + 1) = ReadMap n p0"
    and "readPairs host d array n (Some p0) = Ok (ps, q)"
    and "list_all2 (\<lambda>key k. ToPropertyKey host key = Ok k) (map fst ps) ks"
    and "jstr ''__proto__'' \<notin> set ks"
  shows "\<exists>es. read host (Suc d) array (Some p) = Ok (Obj es, q)
              \<and> map_of es = map_of (rev (zip ks (map snd ps)))
              \<and> distinct (map fst es)"
proof -
  from readMap_loop_stores[OF assms(3,4,5), of "[]"]
  obtain es where "readMap_loop host d array n (Some p0) (None, []) = Ok (Obj es, q)"
    and "map_of es = map_of (rev (zip ks (map snd ps)))" and "distinct (map fst es)"
    by auto
  with assms(1,2) show ?thesis
    by simp
qed

text \<open>
  The map \<^verbatim>\<open>{7: true, "a": 1, 7: false}\<close>.
\<close>

theorem decoded_map_entries_stored_witness:
  "read (\<lambda>v. Throw TypeError) (Suc 1) [0x83, 0x07, 0xc3, 0xa1, 0x61, 0x01, 0x07, 0xc2] (Some 0)
     = Ok (Obj [([0x37], Bool False), ([0x61], Num (Fin 1))], Some 8)
   \<and> (\<exists>es. read (\<lambda>v. Throw TypeError) (Suc 1) [0x83, 0x07, 0xc3, 0xa1, 0x61, 0x01, 0x07, 0xc2] (Some 0)
              = Ok (Obj es, Some 8)
            \<and> map_of es = map_of [([0x37], Bool False), ([0x61], Num (Fin 1)), ([0x37], Bool True)]
            \<and> distinct (map fst es))"
proof -
  let ?host = "\<lambda>v::jsval. Throw TypeError :: jstring result"
  let ?array = "[0x83, 0x07, 0xc3, 0xa1, 0x61, 0x01, 0x07, 0xc2] :: byte list"
  have a: "byte_at ?array 0 = Some 0x83"
    by (simp add: byte_at_def)
  have b: "dispatch ?array 0x83 (0 + 1) = ReadMap 3 1"
    by (simp add: read_simps num_simps)
  have c: "readPairs ?host 1 ?array 3 (Some 1)
             = Ok ([(Num (Fin 7), Bool True), (Str [0x61], Num (Fin 1)), (Num (Fin 7), Bool False)], Some 8)"
    by (simp add: read_simps readPairs_unfold num_simps decodeUtf8_def decodeUtf8_loop.simps
        decodeUtf8_step_def fromCodePoint_def)
  have d: "list_all2 (\<lambda>key k. ToPropertyKey ?host key = Ok k)
             (map fst [(Num (Fin 7), Bool True), (Str [0x61], Num (Fin 1)), (Num (Fin 7), Bool False)])
             [[0x37], [0x61], [0x37 :: 16 word]]"
    using ToPropertyKey_integer[of 7 ?host] by (simp add: num_def decimal_def digits.simps)
  have e: "jstr ''__proto__'' \<notin> set [[0x37], [0x61], [0x37 :: 16 word]]"
    by (simp add: jstr_def)
  have f: "read ?host (Suc 1) ?array (Some 0)
             = Ok (Obj [([0x37], Bool False), ([0x61], Num (Fin 1))], Some 8)"
    by (simp add: read_simps loop_simps num_simps decodeUtf8_def decodeUtf8_loop.simps
        decodeUtf8_step_def fromCodePoint_def obj_set_def object_prototype_def object_value_def
        define_property_def array_index_def decimal_def digits.simps jstr_def)
  from decoded_map_entries_stored[OF a b c d e] f show ?thesis
    by simp
qed

text \<open>
  An entry whose key converts to \<^verbatim>\<open>__proto__\<close> is not stored: the maps
  \<^verbatim>\<open>{"__proto__": 1}\<close> and \<^verbatim>\<open>{["__proto__"]: 1}\<close> (the key an array of one string) are
  decoded to the empty object. The first is what \<^verbatim>\<open>serialize\<close> writes for an object with
  the property \<^verbatim>\<open>__proto__\<close>.
\<close>

theorem proto_key_not_stored:
  "(\<forall>host. deserialize host [0x81, 0xa9, 0x5f, 0x5f, 0x70, 0x72, 0x6f, 0x74, 0x6f, 0x5f, 0x5f, 0x01]
             no_options = Ok (Obj []))
   \<and> (\<forall>host. deserialize host
                [0x81, 0x91, 0xa9, 0x5f, 0x5f, 0x70, 0x72, 0x6f, 0x74, 0x6f, 0x5f, 0x5f, 0x01]
                no_options = Ok (Obj []))
   \<and> (\<forall>n. serialize n (Obj [(jstr ''__proto__'', Num (Fin 1))]) no_options
             = Ok [0x81, 0xa9, 0x5f, 0x5f, 0x70, 0x72, 0x6f, 0x74, 0x6f, 0x5f, 0x5f, 0x01])"
  by (simp add: read_simps loop_simps num_simps decodeUtf8_def decodeUtf8_loop.simps
      decodeUtf8_step_def fromCodePoint_def obj_set_def object_prototype_def object_value_def
      jstr_def no_options_def appendString_def strHeader_def mapHeader_def appendNumber_def
      isInteger_def)
end
